theory Spec2Isabelle
  imports Main "HOL-Library.Word"
begin

section \<open>A separate-chaining hash table over byte buffers (hashtable.h)\<close>

subsection \<open>Machine types, undefined behaviour and the allocator\<close>

text \<open>
  \<open>unsigned short\<close> has 16 bits and \<open>unsigned int\<close> and \<open>int\<close> have 32, as the
  specification assumes; their arithmetic wraps around.
\<close>

type_synonym byte = "8 word"
type_synonym ushort = "16 word"
type_synonym uint = "32 word"

text \<open>
  The C code has paths on which it writes or copies through a null pointer, divides by
  zero, reads a node it has already freed, reads a bucket that was never initialised, or
  is handed a buffer shorter than the caller says. The model stops there with the
  corresponding \<open>fault\<close> (\<open>Inl\<close>) instead of inventing a result. Two further cases of
  undefined behaviour, on which the compiled program goes on, are modelled by what it
  does: a copy of no byte to a null buffer (\<open>memcpy\<close> below) and a comparison that runs
  past the end of a stored key (\<open>insert_match\<close> below).
\<close>

datatype fault = NullDereference | OutOfBounds | DivisionByZero | UseAfterFree

text \<open>
  \<open>malloc\<close> and \<open>realloc\<close> can fail, and the memory they hand out is uninitialised. Every
  function that allocates takes the outcomes of its allocation requests, in the order in
  which it makes them: \<open>Fail\<close> is a null result, \<open>Ok junk\<close> is a block whose byte at offset
  \<open>i\<close> is \<open>junk i\<close> until the program writes it. A request made after the list is used
  up fails.
\<close>

datatype alloc = Fail | Ok "nat \<Rightarrow> byte"

fun MALLOC :: "alloc list \<Rightarrow> nat \<Rightarrow> byte list option \<times> alloc list" where
  "MALLOC [] n = (None, [])"
| "MALLOC (Fail # as) n = (None, as)"
| "MALLOC (Ok junk # as) n = (Some (map junk [0..<n]), as)"

text \<open>
  An allocation of a struct or of the bucket array: the model keeps their fields as
  values, so only the success of the request matters.
\<close>

fun MALLOC_struct :: "alloc list \<Rightarrow> bool \<times> alloc list" where
  "MALLOC_struct [] = (False, [])"
| "MALLOC_struct (Fail # as) = (False, as)"
| "MALLOC_struct (Ok junk # as) = (True, as)"

text \<open>
  \<open>realloc(p, n)\<close>: on failure the old block is untouched and the result is null; on
  success the first \<open>min n (old length)\<close> bytes are kept and the rest is uninitialised.
\<close>

fun REALLOC :: "alloc list \<Rightarrow> byte list option \<Rightarrow> nat \<Rightarrow> byte list option \<times> alloc list" where
  "REALLOC [] p n = (None, [])"
| "REALLOC (Fail # as) p n = (None, as)"
| "REALLOC (Ok junk # as) None n = (Some (map junk [0..<n]), as)"
| "REALLOC (Ok junk # as) (Some old) n =
     (Some (take n old @ map junk [length old..<n]), as)"

text \<open>
  \<open>memcpy(dst, src, n)\<close>: the new content of \<open>dst\<close>. A copy of no byte touches neither
  buffer and returns, also when \<open>dst\<close> is null.
\<close>

definition memcpy :: "byte list option \<Rightarrow> byte list \<Rightarrow> nat \<Rightarrow> fault + byte list option" where
  "memcpy dst src n =
     (if n = 0 then Inr dst
      else
        (case dst of
           None \<Rightarrow> Inl NullDereference
         | Some d \<Rightarrow>
             if n \<le> length d \<and> n \<le> length src then Inr (Some (take n src @ drop n d))
             else Inl OutOfBounds))"

text \<open>\<open>memcmp(a, b, n) == 0\<close>: both buffers must hold \<open>n\<close> bytes.\<close>

definition memcmp_eq :: "byte list \<Rightarrow> byte list \<Rightarrow> nat \<Rightarrow> fault + bool" where
  "memcmp_eq a b n =
     (if n \<le> length a \<and> n \<le> length b then Inr (take n a = take n b)
      else Inl OutOfBounds)"

subsection \<open>The structs (lines 6--25)\<close>

text \<open>
  A buffer pointer is \<open>None\<close> when null and \<open>Some bytes\<close> otherwise: the table owns its
  buffers and never shares them, so a buffer is modelled by its content.
\<close>

record HashValue =
  "value" :: "byte list option"
  value_size :: ushort

record HashTableEntry =
  key :: "byte list option"
  key_size :: ushort
  v :: HashValue

text \<open>
  A value of type \<open>chain\<close> is a \<open>HashTableEntry*\<close>: the null pointer, a pointer to a
  node that has been freed (\<open>Dangling\<close>), or a pointer to a live node, given by the node's
  fields and, as the second argument of \<open>Node\<close>, its \<open>next\<close> pointer. Nodes are
  allocated by \<open>insertInHashTable\<close> and linked from one place only, so a live node is
  modelled by its content. Reading through a dangling pointer is undefined behaviour.
\<close>

datatype chain = Null | Dangling | Node HashTableEntry chain

text \<open>
  \<open>table\<close> is the bucket array: \<open>None\<close> when the pointer is null, otherwise the slots
  that have been initialised. The field \<open>size\<close> of the source is \<open>size_ht\<close> here.
\<close>

record HashTable =
  capacity :: uint
  size_ht :: uint
  table :: "chain list option"

subsection \<open>RSHash (lines 42--55)\<close>

text \<open>
  \<open>*key\<close> has type \<open>char\<close>, and whether plain \<open>char\<close> is signed is left to the C
  implementation (it is signed on x86, unsigned on ARM Linux). The conversion of the byte
  to \<open>unsigned int\<close> therefore takes the platform's choice as a parameter.
\<close>

definition char_to_uint :: "bool \<Rightarrow> byte \<Rightarrow> uint" where
  "char_to_uint char_signed c = (if char_signed then scast c else ucast c)"

text \<open>The loop of lines 49--53; \<open>n\<close> is \<open>keysize - i\<close>, \<open>key'\<close> the bytes from the pointer on.\<close>

fun RSHash_loop :: "bool \<Rightarrow> byte list \<Rightarrow> nat \<Rightarrow> uint \<Rightarrow> uint \<Rightarrow> fault + uint" where
  "RSHash_loop cs key' 0 a hash = Inr hash"
| "RSHash_loop cs [] (Suc n) a hash = Inl OutOfBounds"
| "RSHash_loop cs (c # key') (Suc n) a hash =
     RSHash_loop cs key' n (a * 378551) (hash * a + char_to_uint cs c)"

definition RSHash :: "bool \<Rightarrow> byte list \<Rightarrow> uint \<Rightarrow> fault + uint" where
  "RSHash cs key' keysize = RSHash_loop cs key' (unat keysize) 63689 0"

text \<open>
  \<open>HASH(key, keysize) % hashtable->capacity\<close> (lines 154, 219 and 254), followed by the
  read of \<open>hashtable->table[hash]\<close>.
\<close>

definition bucket_index :: "bool \<Rightarrow> uint \<Rightarrow> byte list \<Rightarrow> ushort \<Rightarrow> fault + nat" where
  "bucket_index cs cap key' keysize =
     (case RSHash cs key' (ucast keysize) of
        Inl f \<Rightarrow> Inl f
      | Inr h \<Rightarrow> if cap = 0 then Inl DivisionByZero else Inr (unat (h mod cap)))"

subsection \<open>createHashTable (lines 92--114)\<close>

text \<open>
  The parameter is a C \<open>int\<close>: 32 bits, read as two's complement by \<open>sint\<close>. The loop of
  lines 106--109 runs while \<open>i < size\<close> on signed values, so it writes \<open>nat (sint sz)\<close>
  slots; line 111 converts the same 32 bits to \<open>unsigned int\<close>.
\<close>

definition createHashTable :: "alloc list \<Rightarrow> 32 word \<Rightarrow> HashTable option" where
  "createHashTable allocs sz =
     (case MALLOC_struct allocs of
        (False, _) \<Rightarrow> None
      | (True, as1) \<Rightarrow>
          (case MALLOC_struct as1 of
             (False, _) \<Rightarrow> None
           | (True, _) \<Rightarrow>
               Some \<lparr>capacity = sz, size_ht = 0,
                     table = Some (replicate (nat (sint sz)) Null)\<rparr>))"

subsection \<open>insertInHashTable (lines 146--209)\<close>

text \<open>Lines 158--166: the first node of an empty bucket.\<close>

definition new_head_entry ::
  "alloc list \<Rightarrow> byte list \<Rightarrow> ushort \<Rightarrow> byte list \<Rightarrow> ushort \<Rightarrow> fault + chain" where
  "new_head_entry allocs key' keysize value' valuesize =
     (case MALLOC_struct allocs of
        (False, _) \<Rightarrow> Inl NullDereference
      | (True, as1) \<Rightarrow>
          (let (kbuf, as2) = MALLOC as1 (unat keysize);
               (vbuf, as3) = MALLOC as2 (unat valuesize)
           in (case memcpy kbuf key' (unat keysize) of
                 Inl f \<Rightarrow> Inl f
               | Inr k \<Rightarrow>
                   (case memcpy vbuf value' (unat valuesize) of
                      Inl f \<Rightarrow> Inl f
                    | Inr vb \<Rightarrow>
                        Inr (Node \<lparr>key = k, key_size = keysize,
                                   v = \<lparr>value = vb, value_size = valuesize\<rparr>\<rparr> Null)))))"

text \<open>Lines 194--204: a node at the end of a chain.\<close>

definition new_tail_entry ::
  "alloc list \<Rightarrow> byte list \<Rightarrow> ushort \<Rightarrow> byte list \<Rightarrow> ushort \<Rightarrow> fault + chain" where
  "new_tail_entry allocs key' keysize value' valuesize =
     (case MALLOC_struct allocs of
        (False, _) \<Rightarrow> Inl NullDereference
      | (True, as1) \<Rightarrow>
          (let (kbuf, as2) = MALLOC as1 (unat keysize)
           in (case memcpy kbuf key' (unat keysize) of
                 Inl f \<Rightarrow> Inl f
               | Inr k \<Rightarrow>
                   (let (vbuf, as3) = MALLOC as2 (unat valuesize)
                    in (case memcpy vbuf value' (unat valuesize) of
                          Inl f \<Rightarrow> Inl f
                        | Inr vb \<Rightarrow>
                            Inr (Node \<lparr>key = k, key_size = keysize,
                                       v = \<lparr>value = vb, value_size = valuesize\<rparr>\<rparr> Null))))))"

text \<open>
  Line 175: \<open>entry->key != NULL && memcmp(entry->key, key, keysize) == 0\<close>. The line
  compares \<open>keysize\<close> bytes whatever the length of the stored key. When the stored key
  is shorter, \<open>memcmp\<close> runs past the end of the stored buffer and the program goes on
  with what the heap holds there: if the stored bytes differ from the key's first bytes
  the keys compare different; if they agree, the result depends on memory that is not
  the table's, and \<open>past e\<close> tells whether the bytes behind the key buffer of \<open>e\<close> equal
  the rest of the key. Every function on the insertion path takes \<open>past\<close>.
\<close>

definition insert_match ::
  "(HashTableEntry \<Rightarrow> bool) \<Rightarrow> HashTableEntry \<Rightarrow> byte list \<Rightarrow> ushort \<Rightarrow> fault + bool" where
  "insert_match past e key' keysize =
     (case key e of
        None \<Rightarrow> Inr False
      | Some kb \<Rightarrow>
          if unat keysize \<le> length kb then memcmp_eq kb key' (unat keysize)
          else if length key' < unat keysize then Inl OutOfBounds
          else if kb = take (length kb) key' then Inr (past e)
          else Inr False)"

text \<open>Lines 177--186: the node after a call that found its key in it.\<close>

definition overwrite :: "alloc list \<Rightarrow> HashTableEntry \<Rightarrow> ushort \<Rightarrow> HashTableEntry" where
  "overwrite allocs e valuesize =
     (if valuesize > value_size (v e) then
        (case REALLOC allocs (value (v e)) (unat valuesize) of
           (None, _) \<Rightarrow> e
         | (Some newvalue, _) \<Rightarrow>
             e\<lparr>v := \<lparr>value = Some newvalue, value_size = valuesize\<rparr>\<rparr>)
      else e)"

text \<open>
  The loop of lines 173--190 and the append of lines 192--205, on a bucket that is not
  empty. The result is the chain afterwards and whether a node was appended (the call
  reaches line 207) or the key was found (the call returns at line 186). The test
  \<open>entry == NULL && prev_entry != NULL\<close> of line 192 holds whenever the loop ends.
\<close>

fun insert_chain ::
  "(HashTableEntry \<Rightarrow> bool) \<Rightarrow> alloc list \<Rightarrow> chain \<Rightarrow> byte list \<Rightarrow> ushort \<Rightarrow> byte list \<Rightarrow> ushort \<Rightarrow> fault + (bool \<times> chain)" where
  "insert_chain past allocs Null key' keysize value' valuesize =
     (case new_tail_entry allocs key' keysize value' valuesize of
        Inl f \<Rightarrow> Inl f
      | Inr n \<Rightarrow> Inr (True, n))"
| "insert_chain past allocs Dangling key' keysize value' valuesize = Inl UseAfterFree"
| "insert_chain past allocs (Node e nx) key' keysize value' valuesize =
     (case insert_match past e key' keysize of
        Inl f \<Rightarrow> Inl f
      | Inr True \<Rightarrow> Inr (False, Node (overwrite allocs e valuesize) nx)
      | Inr False \<Rightarrow>
          (case insert_chain past allocs nx key' keysize value' valuesize of
             Inl f \<Rightarrow> Inl f
           | Inr (appended, nx') \<Rightarrow> Inr (appended, Node e nx')))"

text \<open>
  Lines 156--206 on the chain of the bucket: the branch of line 156 for an empty bucket,
  the loop otherwise.
\<close>

definition insert_bucket ::
  "(HashTableEntry \<Rightarrow> bool) \<Rightarrow> alloc list \<Rightarrow> chain \<Rightarrow> byte list \<Rightarrow> ushort \<Rightarrow> byte list \<Rightarrow> ushort
     \<Rightarrow> fault + (bool \<times> chain)" where
  "insert_bucket past allocs c key' keysize value' valuesize =
     (if c = Null then
        (case new_head_entry allocs key' keysize value' valuesize of
           Inl f \<Rightarrow> Inl f
         | Inr n \<Rightarrow> Inr (True, n))
      else insert_chain past allocs c key' keysize value' valuesize)"

text \<open>
  The result is the returned \<open>int\<close> and the table afterwards. Line 207 increments
  \<open>size\<close> on the paths that reach it.
\<close>

definition insertInHashTable ::
  "bool \<Rightarrow> (HashTableEntry \<Rightarrow> bool) \<Rightarrow> alloc list \<Rightarrow> HashTable option \<Rightarrow> byte list \<Rightarrow> ushort \<Rightarrow> byte list \<Rightarrow> ushort
     \<Rightarrow> fault + (int \<times> HashTable option)" where
  "insertInHashTable cs past allocs hashtable key' keysize value' valuesize =
     (case hashtable of
        None \<Rightarrow> Inr (- 1, None)
      | Some t \<Rightarrow>
          (case table t of
             None \<Rightarrow> Inr (- 1, Some t)
           | Some bs \<Rightarrow>
               (case bucket_index cs (capacity t) key' keysize of
                  Inl f \<Rightarrow> Inl f
                | Inr hash \<Rightarrow>
                    if length bs \<le> hash then Inl OutOfBounds
                    else
                      (case insert_bucket past allocs (bs ! hash) key' keysize value' valuesize of
                         Inl f \<Rightarrow> Inl f
                       | Inr (appended, c) \<Rightarrow>
                           Inr (0, Some (t\<lparr>table := Some (bs[hash := c]),
                                           size_ht := (if appended then size_ht t + 1
                                                       else size_ht t)\<rparr>))))))"

subsection \<open>removeFromHashTable (lines 211--244)\<close>

text \<open>
  Lines 224 and 258:
  \<open>entry->key != NULL && entry->key_size == keysize && memcmp(entry->key, key, keysize) == 0\<close>.
  Here \<open>memcmp\<close> runs only when the stored length equals \<open>keysize\<close>, so it stays inside
  the stored buffer of every entry that \<open>insertInHashTable\<close> builds.
\<close>

definition key_match :: "HashTableEntry \<Rightarrow> byte list \<Rightarrow> ushort \<Rightarrow> fault + bool" where
  "key_match e key' keysize =
     (case key e of
        None \<Rightarrow> Inr False
      | Some kb \<Rightarrow>
          if key_size e = keysize then memcmp_eq kb key' (unat keysize) else Inr False)"

text \<open>
  The loop of lines 222--243; \<open>prev_null\<close> is \<open>prev_entry == NULL\<close>. The result is what
  the pointer that led to \<open>entry\<close> holds afterwards. When the key is found in the first
  node, line 229 stores \<open>entry->next\<close> in the bucket. When it is found further down,
  line 233 assigns to the local variable \<open>prev_entry\<close> only: the \<open>next\<close> field of the
  previous node still holds the address of the node that lines 236--238 free.
\<close>

fun remove_chain :: "chain \<Rightarrow> bool \<Rightarrow> byte list \<Rightarrow> ushort \<Rightarrow> fault + chain" where
  "remove_chain Null prev_null key' keysize = Inr Null"
| "remove_chain Dangling prev_null key' keysize = Inl UseAfterFree"
| "remove_chain (Node e nx) prev_null key' keysize =
     (case key_match e key' keysize of
        Inl f \<Rightarrow> Inl f
      | Inr True \<Rightarrow> Inr (if prev_null then nx else Dangling)
      | Inr False \<Rightarrow>
          (case remove_chain nx False key' keysize of
             Inl f \<Rightarrow> Inl f
           | Inr nx' \<Rightarrow> Inr (Node e nx')))"

definition removeFromHashTable ::
  "bool \<Rightarrow> HashTable option \<Rightarrow> byte list \<Rightarrow> ushort \<Rightarrow> fault + HashTable option" where
  "removeFromHashTable cs hashtable key' keysize =
     (case hashtable of
        None \<Rightarrow> Inr None
      | Some t \<Rightarrow>
          (case table t of
             None \<Rightarrow> Inr (Some t)
           | Some bs \<Rightarrow>
               (case bucket_index cs (capacity t) key' keysize of
                  Inl f \<Rightarrow> Inl f
                | Inr hash \<Rightarrow>
                    if length bs \<le> hash then Inl OutOfBounds
                    else
                      (case remove_chain (bs ! hash) True key' keysize of
                         Inl f \<Rightarrow> Inl f
                       | Inr c \<Rightarrow> Inr (Some (t\<lparr>table := Some (bs[hash := c])\<rparr>))))))"

subsection \<open>findInHashTable (lines 246--265)\<close>

text \<open>The loop of lines 256--263: \<open>Some (v e)\<close> is the pointer \<open>&entry->v\<close>.\<close>

fun find_chain :: "chain \<Rightarrow> byte list \<Rightarrow> ushort \<Rightarrow> fault + HashValue option" where
  "find_chain Null key' keysize = Inr None"
| "find_chain Dangling key' keysize = Inl UseAfterFree"
| "find_chain (Node e nx) key' keysize =
     (case key_match e key' keysize of
        Inl f \<Rightarrow> Inl f
      | Inr True \<Rightarrow> Inr (Some (v e))
      | Inr False \<Rightarrow> find_chain nx key' keysize)"

text \<open>
  The function writes nothing, so its model returns the result only: the table after
  the call is the table before it.
\<close>

definition findInHashTable ::
  "bool \<Rightarrow> HashTable option \<Rightarrow> byte list \<Rightarrow> ushort \<Rightarrow> fault + HashValue option" where
  "findInHashTable cs hashtable key' keysize =
     (case hashtable of
        None \<Rightarrow> Inr None
      | Some t \<Rightarrow>
          (case table t of
             None \<Rightarrow> Inr None
           | Some bs \<Rightarrow>
               (case bucket_index cs (capacity t) key' keysize of
                  Inl f \<Rightarrow> Inl f
                | Inr hash \<Rightarrow>
                    if length bs \<le> hash then Inl OutOfBounds
                    else find_chain (bs ! hash) key' keysize)))"

section \<open>Specification-level notions\<close>

subsection \<open>The hash recurrence\<close>

text \<open>
  The recurrence of the specification over the values the bytes stand for:
  \<open>hash := hash * a + x\<close>, then \<open>a := a * b\<close>, with \<open>b = 378551\<close>, in arithmetic
  modulo \<open>2 ^ 32\<close>.
\<close>

fun hash_of :: "uint list \<Rightarrow> uint \<Rightarrow> uint \<Rightarrow> uint" where
  "hash_of [] a hash = hash"
| "hash_of (x # xs) a hash = hash_of xs (a * 378551) (hash * a + x)"

text \<open>
  The value of a byte read through a plain \<open>char\<close>: the byte itself where \<open>char\<close> is
  unsigned, and for a byte of 128 or more the byte minus 256 where \<open>char\<close> is signed.
  \<open>hash_spec False\<close> is the hash as the specification words it (every byte unsigned).
\<close>

definition plain_char_value :: "bool \<Rightarrow> byte \<Rightarrow> uint" where
  "plain_char_value char_signed c =
     (if char_signed \<and> 128 \<le> c then ucast c - 256 else ucast c)"

definition hash_spec :: "bool \<Rightarrow> byte list \<Rightarrow> uint" where
  "hash_spec char_signed bytes = hash_of (map (plain_char_value char_signed) bytes) 63689 0"

definition bucket_of :: "bool \<Rightarrow> uint \<Rightarrow> byte list \<Rightarrow> nat" where
  "bucket_of char_signed cap bytes = unat (hash_spec char_signed bytes mod cap)"

subsection \<open>Chains as lists of entries\<close>

fun entries :: "chain \<Rightarrow> HashTableEntry list" where
  "entries Null = []"
| "entries Dangling = []"
| "entries (Node e nx) = e # entries nx"

text \<open>A chain is intact when it ends in the null pointer, not in a freed node.\<close>

fun intact :: "chain \<Rightarrow> bool" where
  "intact Null = True"
| "intact Dangling = False"
| "intact (Node e nx) = intact nx"


text \<open>
  The data model's invariant on an entry: both buffers exist and are as long as their
  length fields say.
\<close>

definition wf_entry :: "HashTableEntry \<Rightarrow> bool" where
  "wf_entry e =
     ((case key e of None \<Rightarrow> False | Some kb \<Rightarrow> length kb = unat (key_size e)) \<and>
      (case value (v e) of None \<Rightarrow> False | Some vb \<Rightarrow> length vb = unat (value_size (v e))))"

definition wf_chain :: "chain \<Rightarrow> bool" where
  "wf_chain c = (intact c \<and> list_all wf_entry (entries c))"

definition wf_table :: "HashTable \<Rightarrow> bool" where
  "wf_table t =
     (capacity t \<noteq> 0 \<and>
      (case table t of
         None \<Rightarrow> False
       | Some bs \<Rightarrow> length bs = unat (capacity t) \<and> list_all wf_chain bs))"

text \<open>No two entries of a chain have the same key length and the same key bytes.\<close>

definition unique_keys :: "chain \<Rightarrow> bool" where
  "unique_keys c = distinct (map (\<lambda>e. (key_size e, key e)) (entries c))"



text \<open>
  The same for the entries that have a key buffer: no two of them have the same key
  length and the same key bytes.
\<close>

definition unique_stored_keys :: "chain \<Rightarrow> bool" where
  "unique_stored_keys c =
     distinct (map (\<lambda>e. (key_size e, key e)) (filter (\<lambda>e. key e \<noteq> None) (entries c)))"

text \<open>Every entry of the chain has a key buffer.\<close>

definition keyed :: "chain \<Rightarrow> bool" where
  "keyed c = list_all (\<lambda>e. key e \<noteq> None) (entries c)"

subsection \<open>Sequences of insertions\<close>

text \<open>
  A call of \<open>insertInHashTable\<close>: the outcomes of its comparisons past the end of a
  stored key and of its allocation requests, the key buffer and \<open>keysize\<close>, the value
  buffer and \<open>valuesize\<close>.
\<close>

type_synonym insert_call =
  "(HashTableEntry \<Rightarrow> bool) \<times> alloc list \<times> byte list \<times> ushort \<times> byte list \<times> ushort"

fun insert_all :: "bool \<Rightarrow> HashTable option \<Rightarrow> insert_call list \<Rightarrow> fault + HashTable option" where
  "insert_all cs hashtable [] = Inr hashtable"
| "insert_all cs hashtable ((past, allocs, key', keysize, value', valuesize) # calls) =
     (case insertInHashTable cs past allocs hashtable key' keysize value' valuesize of
        Inl f \<Rightarrow> Inl f
      | Inr (r, hashtable') \<Rightarrow> insert_all cs hashtable' calls)"

fun call_keysize :: "insert_call \<Rightarrow> ushort" where
  "call_keysize (past, allocs, key', keysize, value', valuesize) = keysize"

text \<open>
  A call that keeps to the interface and meets no allocation failure: both buffers hold
  as many bytes as the call says, and its first three allocation requests succeed.
\<close>

fun proper_call :: "insert_call \<Rightarrow> bool" where
  "proper_call (past, allocs, key', keysize, value', valuesize) =
     (unat keysize \<le> length key' \<and> unat valuesize \<le> length value' \<and>
      (case allocs of Ok j1 # Ok j2 # Ok j3 # rest \<Rightarrow> True | _ \<Rightarrow> False))"

text \<open>A property of every bucket chain of a table.\<close>

definition table_all :: "(chain \<Rightarrow> bool) \<Rightarrow> HashTable option \<Rightarrow> bool" where
  "table_all P ht =
     (case ht of
        None \<Rightarrow> False
      | Some t \<Rightarrow> (case table t of None \<Rightarrow> False | Some bs \<Rightarrow> list_all P bs))"

text \<open>
  A table on which the code runs without reading outside the bucket array or through a
  dangling pointer: a nonzero capacity, as many buckets as the capacity, intact chains.
\<close>

definition sound_table :: "HashTable option \<Rightarrow> bool" where
  "sound_table ht =
     (case ht of
        None \<Rightarrow> False
      | Some t \<Rightarrow>
          capacity t \<noteq> 0 \<and>
          (case table t of
             None \<Rightarrow> False
           | Some bs \<Rightarrow> length bs = unat (capacity t) \<and> list_all intact bs))"

text \<open>
  What a new entry holds when the call that builds it returns: the sizes of the call, a
  copy of the first \<open>keysize\<close> bytes of the key and of the first \<open>valuesize\<close> bytes of
  the value, or a null buffer where the size is 0 and \<open>malloc(0)\<close> returned null.
\<close>

definition stored_by :: "byte list \<Rightarrow> ushort \<Rightarrow> byte list \<Rightarrow> ushort \<Rightarrow> HashTableEntry \<Rightarrow> bool" where
  "stored_by key' keysize value' valuesize e =
     (key_size e = keysize \<and> value_size (v e) = valuesize \<and>
      (key e = Some (take (unat keysize) key') \<or> keysize = 0 \<and> key e = None) \<and>
      (value (v e) = Some (take (unat valuesize) value') \<or>
         valuesize = 0 \<and> value (v e) = None))"

text \<open>
  The entry that lines 158--166 and lines 194--204 build when every allocation succeeds
  and both source buffers are long enough.
\<close>

definition fresh_entry :: "byte list \<Rightarrow> ushort \<Rightarrow> byte list \<Rightarrow> ushort \<Rightarrow> HashTableEntry" where
  "fresh_entry key' keysize value' valuesize =
     \<lparr>key = Some (take (unat keysize) key'), key_size = keysize,
      v = \<lparr>value = Some (take (unat valuesize) value'), value_size = valuesize\<rparr>\<rparr>"

section \<open>Example tables\<close>

text \<open>
  An allocation that succeeds and hands out zeroed memory, and the tables that the
  examples below use. Keys and values are ASCII: \<open>0x6B\<close> is \<open>k\<close>, \<open>[0x76, 0x31]\<close>
  is \<open>v1\<close>, \<open>0x61\<close>, \<open>0x62\<close>, \<open>0x63\<close> are \<open>a\<close>, \<open>b\<close>, \<open>c\<close>. With one bucket
  every key lands in the same chain.
\<close>

definition zeroed :: alloc where
  "zeroed = Ok (\<lambda>i. 0)"

definition table_empty :: HashTable where
  "table_empty = \<lparr>capacity = 1, size_ht = 0, table = Some [Null]\<rparr>"

definition entry_k :: HashTableEntry where
  "entry_k =
     \<lparr>key = Some [0x6B], key_size = 1, v = \<lparr>value = Some [0x76, 0x31], value_size = 2\<rparr>\<rparr>"

definition table_k :: HashTable where
  "table_k = \<lparr>capacity = 1, size_ht = 1, table = Some [Node entry_k Null]\<rparr>"

definition entry_a :: HashTableEntry where
  "entry_a = \<lparr>key = Some [0x61], key_size = 1, v = \<lparr>value = Some [0x41], value_size = 1\<rparr>\<rparr>"

definition entry_b :: HashTableEntry where
  "entry_b = \<lparr>key = Some [0x62], key_size = 1, v = \<lparr>value = Some [0x42], value_size = 1\<rparr>\<rparr>"

definition table_ab :: HashTable where
  "table_ab = \<lparr>capacity = 1, size_ht = 2, table = Some [Node entry_a (Node entry_b Null)]\<rparr>"

definition entry_ab :: HashTableEntry where
  "entry_ab =
     \<lparr>key = Some [0x61, 0x62], key_size = 2, v = \<lparr>value = Some [0x5A], value_size = 1\<rparr>\<rparr>"

definition entry_c :: HashTableEntry where
  "entry_c = \<lparr>key = Some [0x63], key_size = 1, v = \<lparr>value = Some [0x43], value_size = 1\<rparr>\<rparr>"

definition table_ab_c :: HashTable where
  "table_ab_c =
     \<lparr>capacity = 1, size_ht = 2, table = Some [Node entry_ab (Node entry_c Null)]\<rparr>"

definition table_2 :: HashTable where
  "table_2 =
     \<lparr>capacity = 2, size_ht = 2, table = Some [Node entry_b Null, Node entry_k Null]\<rparr>"

definition table_dangling :: HashTable where
  "table_dangling = \<lparr>capacity = 1, size_ht = 2, table = Some [Node entry_a Dangling]\<rparr>"

definition table_a_ab_b :: HashTable where
  "table_a_ab_b =
     \<lparr>capacity = 1, size_ht = 3,
      table = Some [Node entry_a (Node entry_ab (Node entry_b Null))]\<rparr>"

text \<open>
  The entry that a call with \<open>keysize = 0\<close> stores when \<open>malloc(0)\<close> returns null, and
  the table after two such calls.
\<close>

definition entry_nokey :: HashTableEntry where
  "entry_nokey = \<lparr>key = None, key_size = 0, v = \<lparr>value = Some [0x41], value_size = 1\<rparr>\<rparr>"

definition table_nokey_twice :: HashTable where
  "table_nokey_twice =
     \<lparr>capacity = 1, size_ht = 2, table = Some [Node entry_nokey (Node entry_nokey Null)]\<rparr>"

text \<open>
  The two constant outcomes of a comparison past the end of a stored key: the memory
  behind it never equals the rest of the key, or always does.
\<close>

definition differs :: "HashTableEntry \<Rightarrow> bool" where
  "differs = (\<lambda>e. False)"

definition agrees :: "HashTableEntry \<Rightarrow> bool" where
  "agrees = (\<lambda>e. True)"

text \<open>
  Four calls that keep to the interface, with allocations that succeed: \<open>a\<close> with value
  \<open>A\<close>, \<open>ab\<close> with value \<open>Z\<close>, \<open>a\<close> again with value \<open>B\<close>, and \<open>b\<close> with value \<open>B\<close>.
\<close>

definition four_calls :: "(HashTableEntry \<Rightarrow> bool) \<Rightarrow> insert_call list" where
  "four_calls past =
     [(past, [zeroed, zeroed, zeroed], [0x61], 1, [0x41], 1),
      (past, [zeroed, zeroed, zeroed], [0x61, 0x62], 2, [0x5A], 1),
      (past, [zeroed, zeroed, zeroed], [0x61], 1, [0x42], 1),
      (past, [zeroed, zeroed, zeroed], [0x62], 1, [0x42], 1)]"

section \<open>Auxiliary facts\<close>

subsection \<open>Words\<close>

lemma sint_byte: "sint (c::byte) = (if 128 \<le> c then uint c - 256 else uint c)"
proof -
  have b: "0 \<le> uint c" "uint c < 256"
    using uint_lt2p [of c] by simp_all
  have "uint c div 128 = (if 128 \<le> uint c then 1 else 0)"
    using b by auto
  then have "bit (uint c) 7 \<longleftrightarrow> 128 \<le> uint c"
    by (simp add: bit_iff_odd)
  moreover have "take_bit 8 (uint c) = uint c"
    using b by (simp add: take_bit_int_eq_self)
  ultimately show ?thesis
    by (simp add: sint_uint signed_take_bit_eq_take_bit_minus word_le_def)
qed

lemma scast_byte: "(scast (c::byte) :: uint) = (if 128 \<le> c then ucast c - 256 else ucast c)"
proof -
  have s: "(scast c :: uint) = word_of_int (sint c)"
    by (rule scast_eq)
  have u: "(ucast c :: uint) = word_of_int (uint c)"
    by (rule ucast_eq)
  show ?thesis
    unfolding s u sint_byte by simp
qed

lemma char_to_uint_plain: "char_to_uint cs c = plain_char_value cs c"
  by (simp add: char_to_uint_def plain_char_value_def scast_byte)

lemma RSHash_loop_hash_of:
  "n \<le> length key' \<Longrightarrow>
     RSHash_loop cs key' n a h = Inr (hash_of (map (plain_char_value cs) (take n key')) a h)"
  by (induction cs key' n a h rule: RSHash_loop.induct) (auto simp: char_to_uint_plain)

lemma RSHash_loop_short:
  "length key' < n \<Longrightarrow> RSHash_loop cs key' n a h = Inl OutOfBounds"
  by (induction cs key' n a h rule: RSHash_loop.induct) auto

lemma unat_keysize: "unat (ucast (keysize :: ushort) :: uint) = unat keysize"
proof -
  have "unat keysize < 2 ^ 16"
    using unsigned_less [of keysize, where ?'a = nat] by simp
  then have "unat keysize < 2 ^ 32"
    by simp
  then show ?thesis
    by (simp add: unsigned_ucast_eq take_bit_nat_eq_self)
qed

lemma RSHash_hash_spec:
  "unat (keysize :: ushort) \<le> length key' \<Longrightarrow>
     RSHash cs key' (ucast keysize) = Inr (hash_spec cs (take (unat keysize) key'))"
  unfolding RSHash_def hash_spec_def unat_keysize by (rule RSHash_loop_hash_of)

lemma bucket_index_bucket_of:
  "unat keysize \<le> length key' \<Longrightarrow> cap \<noteq> 0 \<Longrightarrow>
     bucket_index cs cap key' keysize = Inr (bucket_of cs cap (take (unat keysize) key'))"
  by (simp add: bucket_index_def bucket_of_def RSHash_hash_spec)

lemma bucket_of_less: "cap \<noteq> 0 \<Longrightarrow> bucket_of cs cap bytes < unat cap"
  by (simp add: bucket_of_def unat_mod_distrib unat_gt_0)

lemma hash_spec_ascii:
  "\<not> cs \<or> list_all (\<lambda>c. c < 128) bytes \<Longrightarrow> hash_spec cs bytes = hash_spec False bytes"
proof -
  assume a: "\<not> cs \<or> list_all (\<lambda>c. c < 128) bytes"
  then have "map (plain_char_value cs) bytes = map (plain_char_value False) bytes"
    by (auto simp: plain_char_value_def list_all_iff)
  then show ?thesis
    unfolding hash_spec_def by (rule arg_cong)
qed

subsection \<open>Allocation, copying and chain insertion\<close>

lemma MALLOC_length: "MALLOC as n = (Some b, as') \<Longrightarrow> length b = n"
  by (induction as n rule: MALLOC.induct) auto

lemma copy_fresh:
  assumes "MALLOC as n = (buf, as')" and "memcpy buf src n = Inr r"
  shows "n \<le> length src \<and> (r = Some (take n src) \<or> n = 0 \<and> r = None)"
proof (cases buf)
  case None
  with assms(2) show ?thesis
    by (auto simp: memcpy_def split: if_splits)
next
  case (Some d)
  with assms(1) have "length d = n"
    by (simp add: MALLOC_length)
  with assms(2) Some show ?thesis
    by (auto simp: memcpy_def split: if_splits)
qed

lemma new_tail_entry_Inr:
  assumes "new_tail_entry allocs key' keysize value' valuesize = Inr c"
  shows "\<exists>e. c = Node e Null \<and> stored_by key' keysize value' valuesize e \<and>
           unat keysize \<le> length key' \<and> unat valuesize \<le> length value'"
proof -
  obtain as1 where 1: "MALLOC_struct allocs = (True, as1)"
    using assms by (auto simp: new_tail_entry_def split: prod.splits bool.splits)
  obtain kbuf as2 where 2: "MALLOC as1 (unat keysize) = (kbuf, as2)"
    by (cases "MALLOC as1 (unat keysize)")
  obtain vbuf as3 where 3: "MALLOC as2 (unat valuesize) = (vbuf, as3)"
    by (cases "MALLOC as2 (unat valuesize)")
  from assms 1 2 obtain k where 4: "memcpy kbuf key' (unat keysize) = Inr k"
    by (auto simp: new_tail_entry_def split: sum.splits)
  from assms 1 2 3 4 obtain vb where 5: "memcpy vbuf value' (unat valuesize) = Inr vb"
    by (auto simp: new_tail_entry_def split: sum.splits)
  have c: "c = Node \<lparr>key = k, key_size = keysize, v = \<lparr>value = vb, value_size = valuesize\<rparr>\<rparr> Null"
    using assms 1 2 3 4 5 by (simp add: new_tail_entry_def)
  show ?thesis
    using copy_fresh [OF 2 4] copy_fresh [OF 3 5]
    by (auto simp: c stored_by_def unat_eq_0)
qed

lemma new_head_entry_Inr:
  assumes "new_head_entry allocs key' keysize value' valuesize = Inr c"
  shows "\<exists>e. c = Node e Null \<and> stored_by key' keysize value' valuesize e \<and>
           unat keysize \<le> length key' \<and> unat valuesize \<le> length value'"
proof -
  obtain as1 where 1: "MALLOC_struct allocs = (True, as1)"
    using assms by (auto simp: new_head_entry_def split: prod.splits bool.splits)
  obtain kbuf as2 where 2: "MALLOC as1 (unat keysize) = (kbuf, as2)"
    by (cases "MALLOC as1 (unat keysize)")
  obtain vbuf as3 where 3: "MALLOC as2 (unat valuesize) = (vbuf, as3)"
    by (cases "MALLOC as2 (unat valuesize)")
  from assms 1 2 3 obtain k where 4: "memcpy kbuf key' (unat keysize) = Inr k"
    by (auto simp: new_head_entry_def split: sum.splits)
  from assms 1 2 3 4 obtain vb where 5: "memcpy vbuf value' (unat valuesize) = Inr vb"
    by (auto simp: new_head_entry_def split: sum.splits)
  have c: "c = Node \<lparr>key = k, key_size = keysize, v = \<lparr>value = vb, value_size = valuesize\<rparr>\<rparr> Null"
    using assms 1 2 3 4 5 by (simp add: new_head_entry_def)
  show ?thesis
    using copy_fresh [OF 2 4] copy_fresh [OF 3 5]
    by (auto simp: c stored_by_def unat_eq_0)
qed

lemma overwrite_key:
  "key (overwrite allocs e valuesize) = key e \<and>
   key_size (overwrite allocs e valuesize) = key_size e"
  by (simp add: overwrite_def split: prod.splits option.splits)

lemma overwrite_no_larger: "valuesize \<le> value_size (v e) \<Longrightarrow> overwrite allocs e valuesize = e"
  by (simp add: overwrite_def)

text \<open>What a returning chain insertion did.\<close>

lemma insert_chain_Inr:
  "insert_chain past allocs c key' keysize value' valuesize = Inr (appended, c') \<Longrightarrow>
     (appended \<longrightarrow>
        (\<exists>e. entries c' = entries c @ [e] \<and> stored_by key' keysize value' valuesize e) \<and>
        list_all (\<lambda>e. insert_match past e key' keysize = Inr False) (entries c) \<and>
        unat keysize \<le> length key' \<and> unat valuesize \<le> length value') \<and>
     (\<not> appended \<longrightarrow>
        (\<exists>es1 e es2. entries c = es1 @ e # es2 \<and>
           entries c' = es1 @ overwrite allocs e valuesize # es2 \<and>
           list_all (\<lambda>x. insert_match past x key' keysize = Inr False) es1 \<and>
           insert_match past e key' keysize = Inr True)) \<and>
     intact c' = intact c"
proof (induction c arbitrary: c')
  case Null
  then show ?case
    by (auto split: sum.splits dest: new_tail_entry_Inr)
next
  case Dangling
  then show ?case by simp
next
  case (Node e nx)
  show ?case
  proof (cases "insert_match past e key' keysize")
    case (Inl f)
    with Node.prems show ?thesis by simp
  next
    case (Inr m)
    show ?thesis
    proof (cases m)
      case True
      with Node.prems Inr have "\<not> appended" "c' = Node (overwrite allocs e valuesize) nx"
        by auto
      moreover have "entries (Node e nx) = [] @ e # entries nx"
        by simp
      ultimately show ?thesis
        using Inr True by (intro conjI impI exI [of _ "[]"] exI [of _ e] exI [of _ "entries nx"]) auto
    next
      case False
      with Node.prems Inr obtain nx' where
        r: "insert_chain past allocs nx key' keysize value' valuesize = Inr (appended, nx')"
        and c': "c' = Node e nx'"
        by (auto split: sum.splits prod.splits)
      note IH = Node.IH [OF r]
      show ?thesis
      proof (cases appended)
        case True
        with IH c' Inr False show ?thesis by simp
      next
        case na: False
        with IH obtain es1 x es2 where
          "entries nx = es1 @ x # es2"
          "entries nx' = es1 @ overwrite allocs x valuesize # es2"
          "list_all (\<lambda>x. insert_match past x key' keysize = Inr False) es1"
          "insert_match past x key' keysize = Inr True"
          by auto
        then have "entries (Node e nx) = (e # es1) @ x # es2"
          "entries c' = (e # es1) @ overwrite allocs x valuesize # es2"
          "list_all (\<lambda>x. insert_match past x key' keysize = Inr False) (e # es1)"
          using c' Inr False by simp_all
        moreover have "intact c' = intact (Node e nx)"
          using IH c' by simp
        ultimately show ?thesis
          using na \<open>insert_match past x key' keysize = Inr True\<close> by blast
      qed
    qed
  qed
qed

lemma insert_bucket_Inr:
  assumes "insert_bucket past allocs c key' keysize value' valuesize = Inr (appended, c')"
  shows "(appended \<longrightarrow>
        (\<exists>e. entries c' = entries c @ [e] \<and> stored_by key' keysize value' valuesize e) \<and>
        list_all (\<lambda>e. insert_match past e key' keysize = Inr False) (entries c) \<and>
        unat keysize \<le> length key' \<and> unat valuesize \<le> length value') \<and>
     (\<not> appended \<longrightarrow>
        (\<exists>es1 e es2. entries c = es1 @ e # es2 \<and>
           entries c' = es1 @ overwrite allocs e valuesize # es2 \<and>
           list_all (\<lambda>x. insert_match past x key' keysize = Inr False) es1 \<and>
           insert_match past e key' keysize = Inr True)) \<and>
     intact c' = intact c"
proof (cases "c = Null")
  case True
  with assms show ?thesis
    by (auto simp: insert_bucket_def split: sum.splits dest: new_head_entry_Inr)
next
  case False
  with assms have "insert_chain past allocs c key' keysize value' valuesize = Inr (appended, c')"
    by (simp add: insert_bucket_def)
  then show ?thesis
    by (rule insert_chain_Inr)
qed

subsection \<open>Bucket index, overwriting and size\<close>

lemma bucket_index_Inr:
  assumes "bucket_index cs cap key' keysize = Inr i"
  shows "i = bucket_of cs cap (take (unat keysize) key') \<and> unat keysize \<le> length key' \<and> cap \<noteq> 0"
proof -
  have len: "unat keysize \<le> length key'"
  proof (rule ccontr)
    assume "\<not> unat keysize \<le> length key'"
    then have "RSHash cs key' (ucast keysize) = Inl OutOfBounds"
      by (simp add: RSHash_def unat_keysize RSHash_loop_short)
    with assms show False
      by (simp add: bucket_index_def)
  qed
  have cap: "cap \<noteq> 0"
    using assms len by (auto simp: bucket_index_def RSHash_hash_spec)
  show ?thesis
    using assms len cap by (simp add: bucket_index_bucket_of)
qed

text \<open>The steps of \<open>insertInHashTable\<close> on a table that has a bucket array.\<close>

lemma insertInHashTable_Inr:
  assumes "insertInHashTable cs past allocs (Some t) key' keysize value' valuesize = Inr (r, ht)"
    and "table t = Some bs"
  shows "\<exists>i appended c. bucket_index cs (capacity t) key' keysize = Inr i \<and> i < length bs \<and>
           insert_bucket past allocs (bs ! i) key' keysize value' valuesize = Inr (appended, c) \<and>
           r = 0 \<and>
           ht = Some (t\<lparr>table := Some (bs[i := c]),
                        size_ht := (if appended then size_ht t + 1 else size_ht t)\<rparr>)"
proof -
  from assms obtain i where i: "bucket_index cs (capacity t) key' keysize = Inr i"
    by (auto simp: insertInHashTable_def split: sum.splits)
  from assms i have ilen: "i < length bs"
    by (auto simp: insertInHashTable_def split: if_splits)
  from assms i ilen obtain appended c where
    ib: "insert_bucket past allocs (bs ! i) key' keysize value' valuesize = Inr (appended, c)"
    by (auto simp: insertInHashTable_def split: sum.splits)
  show ?thesis
    using assms i ilen ib by (simp add: insertInHashTable_def)
qed

lemma insert_chain_no_larger:
  "entries c = es1 @ e # es2 \<Longrightarrow>
   list_all (\<lambda>x. insert_match past x key' keysize = Inr False) es1 \<Longrightarrow>
   insert_match past e key' keysize = Inr True \<Longrightarrow>
   valuesize \<le> value_size (v e) \<Longrightarrow>
   insert_chain past allocs c key' keysize value' valuesize = Inr (False, c)"
proof (induction es1 arbitrary: c)
  case Nil
  then show ?case
    by (cases c) (auto simp: overwrite_no_larger)
next
  case (Cons x es1)
  then obtain nx where c: "c = Node x nx" and nx: "entries nx = es1 @ e # es2"
    by (cases c) auto
  from Cons.prems have "insert_match past x key' keysize = Inr False"
    and "list_all (\<lambda>x. insert_match past x key' keysize = Inr False) es1"
    by simp_all
  with Cons.IH [OF nx] Cons.prems(3,4) show ?case
    by (simp add: c)
qed

lemma remove_size:
  "removeFromHashTable cs (Some t) key' keysize = Inr ht \<Longrightarrow>
     \<exists>t'. ht = Some t' \<and> size_ht t' = size_ht t \<and> capacity t' = capacity t"
  by (auto simp: removeFromHashTable_def split: option.splits sum.splits if_splits)

lemma insert_size:
  assumes "insertInHashTable cs past allocs (Some t) key' keysize value' valuesize = Inr (0, ht)"
  shows "\<exists>bs t'. table t = Some bs \<and> ht = Some t' \<and>
           size_ht t' =
             (if list_ex (\<lambda>e. insert_match past e key' keysize = Inr True)
                   (entries (bs ! bucket_of cs (capacity t) (take (unat keysize) key')))
              then size_ht t else size_ht t + 1)"
proof -
  from assms obtain bs where bs: "table t = Some bs"
    by (cases "table t") (auto simp: insertInHashTable_def)
  from insertInHashTable_Inr [OF assms bs] obtain i appended c where
    i: "bucket_index cs (capacity t) key' keysize = Inr i"
    and ib: "insert_bucket past allocs (bs ! i) key' keysize value' valuesize = Inr (appended, c)"
    and ht: "ht = Some (t\<lparr>table := Some (bs[i := c]),
                size_ht := (if appended then size_ht t + 1 else size_ht t)\<rparr>)"
    by blast
  have "appended \<longleftrightarrow>
      \<not> list_ex (\<lambda>e. insert_match past e key' keysize = Inr True) (entries (bs ! i))"
    using insert_bucket_Inr [OF ib] by (cases appended) (auto simp: list_ex_iff list_all_iff)
  moreover have "i = bucket_of cs (capacity t) (take (unat keysize) key')"
    using bucket_index_Inr [OF i] by simp
  ultimately show ?thesis
    using bs ht by auto
qed

lemma sint_nonneg_unat:
  assumes "0 \<le> sint (w :: uint)"
  shows "nat (sint w) = unat w"
proof -
  have b: "uint w < 2 ^ 32"
    using uint_lt2p [of w] by simp
  then have t: "take_bit 32 (uint w) = uint w"
    by (simp add: take_bit_int_eq_self)
  have s: "sint w = uint w - 2 ^ 32 * of_bool (bit (uint w) 31)"
    using t by (simp add: sint_uint signed_take_bit_eq_take_bit_minus)
  from assms s b have "sint w = uint w"
    by (cases "bit (uint w) 31") simp_all
  then show ?thesis
    by simp
qed

subsection \<open>Lookup in well-formed tables\<close>




subsection \<open>Properties of chains that insertions keep\<close>

lemma list_all_update: "list_all P xs \<Longrightarrow> P x \<Longrightarrow> list_all P (xs[i := x])"
  using set_update_subset_insert [of xs i x] by (auto simp: list_all_iff)

lemma insertInHashTable_table_all:
  assumes "insertInHashTable cs past allocs ht key' keysize value' valuesize = Inr (r, ht')"
    and "table_all P ht"
    and step: "\<And>appended c c'.
      insert_bucket past allocs c key' keysize value' valuesize = Inr (appended, c') \<Longrightarrow>
      P c \<Longrightarrow> P c'"
  shows "table_all P ht'"
proof -
  from assms(2) obtain t bs where t: "ht = Some t" "table t = Some bs" and u: "list_all P bs"
    by (auto simp: table_all_def split: option.splits)
  from insertInHashTable_Inr [OF assms(1) [unfolded t(1)] t(2)] obtain i appended c where
    ilen: "i < length bs"
    and ib: "insert_bucket past allocs (bs ! i) key' keysize value' valuesize = Inr (appended, c)"
    and ht': "ht' = Some (t\<lparr>table := Some (bs[i := c]),
                size_ht := (if appended then size_ht t + 1 else size_ht t)\<rparr>)"
    by blast
  have "P (bs ! i)"
    using u ilen by (simp add: list_all_length)
  then have "P c"
    using step [OF ib] by simp
  then have "list_all P (bs[i := c])"
    using u by (simp add: list_all_update)
  then show ?thesis
    by (simp add: ht' table_all_def)
qed

lemma insert_all_table_all:
  assumes step: "\<And>past allocs key' keysize value' valuesize appended c c'.
      Q (past, allocs, key', keysize, value', valuesize) \<Longrightarrow>
      insert_bucket past allocs c key' keysize value' valuesize = Inr (appended, c') \<Longrightarrow>
      P c \<Longrightarrow> P c'"
  shows "insert_all cs ht calls = Inr ht' \<Longrightarrow> table_all P ht \<Longrightarrow> list_all Q calls \<Longrightarrow>
     table_all P ht'"
proof (induction calls arbitrary: ht)
  case Nil
  then show ?case by simp
next
  case (Cons call calls)
  obtain past allocs key' keysize value' valuesize where
    call: "call = (past, allocs, key', keysize, value', valuesize)"
    by (cases call)
  from Cons.prems(1) obtain r ht1 where
    1: "insertInHashTable cs past allocs ht key' keysize value' valuesize = Inr (r, ht1)"
    and 2: "insert_all cs ht1 calls = Inr ht'"
    by (auto simp: call split: sum.splits)
  have q: "Q (past, allocs, key', keysize, value', valuesize)" and qs: "list_all Q calls"
    using Cons.prems(3) by (simp_all add: call)
  have "table_all P ht1"
    using 1 Cons.prems(2) step [OF q] by (rule insertInHashTable_table_all)
  with Cons.IH [OF 2] qs show ?case
    by simp
qed

lemma createHashTable_table_all:
  "createHashTable allocs sz = Some t \<Longrightarrow> P Null \<Longrightarrow> table_all P (Some t)"
  by (auto simp: createHashTable_def table_all_def list_all_iff split: prod.splits bool.splits)

subsection \<open>Uniqueness of stored keys\<close>

lemma insert_match_same_key:
  "insert_match past e key' keysize = Inr False \<Longrightarrow>
     (key_size e, key e) \<noteq> (keysize, Some (take (unat keysize) key'))"
  by (auto simp: insert_match_def memcmp_eq_def split: option.splits if_splits)

lemma insert_bucket_unique:
  assumes "insert_bucket past allocs c key' keysize value' valuesize = Inr (appended, c')"
    and "unique_stored_keys c"
  shows "unique_stored_keys c'"
proof (cases appended)
  case True
  with insert_bucket_Inr [OF assms(1)] obtain e where
    e: "entries c' = entries c @ [e]" and s: "stored_by key' keysize value' valuesize e"
    and m: "list_all (\<lambda>e. insert_match past e key' keysize = Inr False) (entries c)"
    by auto
  have new: "(keysize, Some (take (unat keysize) key')) \<notin>
      (\<lambda>e. (key_size e, key e)) ` set (entries c)"
    using m insert_match_same_key by (fastforce simp: list_all_iff)
  show ?thesis
  proof (cases "key e")
    case None
    with assms(2) e show ?thesis
      by (simp add: unique_stored_keys_def)
  next
    case (Some kb)
    with s have "(key_size e, key e) = (keysize, Some (take (unat keysize) key'))"
      by (auto simp: stored_by_def)
    with new have "(key_size e, key e) \<notin>
        (\<lambda>e. (key_size e, key e)) ` {x \<in> set (entries c). key x \<noteq> None}"
      by auto
    with assms(2) e Some show ?thesis
      by (simp add: unique_stored_keys_def)
  qed
next
  case False
  with insert_bucket_Inr [OF assms(1)] obtain es1 e es2 where
    "entries c = es1 @ e # es2" "entries c' = es1 @ overwrite allocs e valuesize # es2"
    by auto
  then have "map (\<lambda>e. (key_size e, key e)) (filter (\<lambda>e. key e \<noteq> None) (entries c')) =
      map (\<lambda>e. (key_size e, key e)) (filter (\<lambda>e. key e \<noteq> None) (entries c))"
    by (simp add: overwrite_key)
  then show ?thesis
    using assms(2) by (simp add: unique_stored_keys_def)
qed

lemma insert_bucket_keyed:
  assumes "insert_bucket past allocs c key' keysize value' valuesize = Inr (appended, c')"
    and "keyed c" and "keysize \<noteq> 0"
  shows "keyed c'"
proof (cases appended)
  case True
  with insert_bucket_Inr [OF assms(1)] obtain e where
    "entries c' = entries c @ [e]" "stored_by key' keysize value' valuesize e"
    by auto
  with assms(2,3) show ?thesis
    by (auto simp: keyed_def stored_by_def)
next
  case False
  with insert_bucket_Inr [OF assms(1)] obtain es1 e es2 where
    "entries c = es1 @ e # es2" "entries c' = es1 @ overwrite allocs e valuesize # es2"
    by auto
  with assms(2) show ?thesis
    by (simp add: keyed_def overwrite_key)
qed

lemma keyed_unique: "keyed c \<Longrightarrow> unique_stored_keys c \<Longrightarrow> unique_keys c"
proof -
  assume "keyed c"
  then have "filter (\<lambda>e. key e \<noteq> None) (entries c) = entries c"
    by (simp add: keyed_def list_all_iff)
  then show "unique_stored_keys c \<Longrightarrow> unique_keys c"
    by (simp add: unique_stored_keys_def unique_keys_def)
qed

lemma insert_all_unique:
  assumes "insert_all cs ht calls = Inr ht'" and "table_all unique_stored_keys ht"
  shows "table_all unique_stored_keys ht'"
proof -
  have "list_all (\<lambda>call. True) calls"
    by (simp add: list_all_iff)
  with assms show ?thesis
    by (rule insert_all_table_all [where Q = "\<lambda>call. True", rotated]) (rule insert_bucket_unique)
qed

lemma insert_all_keyed:
  assumes "insert_all cs ht calls = Inr ht'" and "table_all keyed ht"
    and "list_all (\<lambda>call. call_keysize call \<noteq> 0) calls"
  shows "table_all keyed ht'"
  using assms
  by (rule insert_all_table_all [where Q = "\<lambda>call. call_keysize call \<noteq> 0", rotated])
    (simp add: insert_bucket_keyed)

subsection \<open>Preservation of the data model's invariant\<close>

lemma REALLOC_length:
  "REALLOC as (Some old) n = (Some new, as') \<Longrightarrow> length old \<le> n \<Longrightarrow> length new = n"
  by (induction as "Some old" n rule: REALLOC.induct) auto

lemma overwrite_wf:
  assumes "wf_entry e"
  shows "wf_entry (overwrite allocs e valuesize)"
proof (cases "valuesize > value_size (v e)")
  case False
  with assms show ?thesis
    by (simp add: overwrite_def)
next
  case True
  from assms obtain old where old: "value (v e) = Some old" "length old = unat (value_size (v e))"
    by (auto simp: wf_entry_def split: option.splits)
  from True have lt: "length old \<le> unat valuesize"
    using old by (simp add: word_less_nat_alt)
  show ?thesis
  proof (cases "REALLOC allocs (Some old) (unat valuesize)")
    case (Pair p as')
    show ?thesis
    proof (cases p)
      case None
      with Pair True old assms show ?thesis
        by (simp add: overwrite_def)
    next
      case (Some new)
      with Pair have "length new = unat valuesize"
        using REALLOC_length lt by blast
      with Pair Some True old assms show ?thesis
        by (simp add: overwrite_def wf_entry_def split: option.splits)
    qed
  qed
qed

lemma stored_by_wf:
  "stored_by key' keysize value' valuesize e \<Longrightarrow> keysize \<noteq> 0 \<Longrightarrow> valuesize \<noteq> 0 \<Longrightarrow>
   unat keysize \<le> length key' \<Longrightarrow> unat valuesize \<le> length value' \<Longrightarrow> wf_entry e"
  by (auto simp: stored_by_def wf_entry_def)

text \<open>
  The specification's entries have keys and values of 1 to 65535 bytes: an insertion
  of a nonempty key with a nonempty value keeps the invariant.
\<close>

lemma insert_bucket_wf:
  assumes "insert_bucket past allocs c key' keysize value' valuesize = Inr (appended, c')"
    and "wf_chain c" and "keysize \<noteq> 0" and "valuesize \<noteq> 0"
  shows "wf_chain c'"
proof (cases appended)
  case True
  with insert_bucket_Inr [OF assms(1)] obtain e where
    "entries c' = entries c @ [e]" "stored_by key' keysize value' valuesize e"
    "unat keysize \<le> length key'" "unat valuesize \<le> length value'" "intact c' = intact c"
    by auto
  with assms(2-4) show ?thesis
    by (simp add: wf_chain_def stored_by_wf)
next
  case False
  with insert_bucket_Inr [OF assms(1)] obtain es1 e es2 where
    "entries c = es1 @ e # es2" "entries c' = es1 @ overwrite allocs e valuesize # es2"
    "intact c' = intact c"
    by auto
  with assms(2) show ?thesis
    by (simp add: wf_chain_def overwrite_wf)
qed

lemma insertInHashTable_wf:
  assumes "insertInHashTable cs past allocs (Some t) key' keysize value' valuesize = Inr (r, ht)"
    and "wf_table t" and "keysize \<noteq> 0" and "valuesize \<noteq> 0"
  shows "\<exists>t'. ht = Some t' \<and> wf_table t'"
proof -
  from assms(2) obtain bs where bs: "table t = Some bs" and cap: "capacity t \<noteq> 0"
    and len: "length bs = unat (capacity t)" and all: "list_all wf_chain bs"
    by (auto simp: wf_table_def split: option.splits)
  from insertInHashTable_Inr [OF assms(1) bs] obtain i appended c where
    ilen: "i < length bs"
    and ib: "insert_bucket past allocs (bs ! i) key' keysize value' valuesize = Inr (appended, c)"
    and ht: "ht = Some (t\<lparr>table := Some (bs[i := c]),
                size_ht := (if appended then size_ht t + 1 else size_ht t)\<rparr>)"
    by blast
  have "wf_chain (bs ! i)"
    using all ilen by (simp add: list_all_length)
  then have "wf_chain c"
    using insert_bucket_wf [OF ib] assms(3,4) by simp
  then have "list_all wf_chain (bs[i := c])"
    using all by (simp add: list_all_update)
  then show ?thesis
    using cap len by (simp add: ht wf_table_def)
qed

lemma createHashTable_wf:
  assumes "createHashTable allocs sz = Some t" and "0 < sint sz"
  shows "wf_table t"
proof -
  have t: "t = \<lparr>capacity = sz, size_ht = 0, table = Some (replicate (nat (sint sz)) Null)\<rparr>"
    using assms(1) by (auto simp: createHashTable_def split: prod.splits bool.splits)
  have "nat (sint sz) = unat sz"
    using assms(2) by (simp add: sint_nonneg_unat)
  moreover have "sz \<noteq> 0"
    using assms(2) by auto
  ultimately show ?thesis
    by (simp add: t wf_table_def wf_chain_def list_all_iff)
qed

subsection \<open>When an insertion returns\<close>

text \<open>
  On a table with a nonzero capacity, as many buckets as the capacity and intact chains,
  a call that keeps to the interface and meets no allocation failure returns 0, and the
  table it leaves is such a table again. So every sequence of such calls on a table
  created with a positive capacity runs to its end.
\<close>

lemma new_tail_entry_returns:
  "unat keysize \<le> length key' \<Longrightarrow> unat valuesize \<le> length value' \<Longrightarrow>
     new_tail_entry (Ok j1 # Ok j2 # Ok j3 # rest) key' keysize value' valuesize =
       Inr (Node (fresh_entry key' keysize value' valuesize) Null)"
  by (simp add: new_tail_entry_def memcpy_def fresh_entry_def)

lemma new_head_entry_returns:
  "unat keysize \<le> length key' \<Longrightarrow> unat valuesize \<le> length value' \<Longrightarrow>
     new_head_entry (Ok j1 # Ok j2 # Ok j3 # rest) key' keysize value' valuesize =
       Inr (Node (fresh_entry key' keysize value' valuesize) Null)"
  by (simp add: new_head_entry_def memcpy_def fresh_entry_def)

lemma insert_match_returns:
  "unat keysize \<le> length key' \<Longrightarrow> \<exists>m. insert_match past e key' keysize = Inr m"
  by (auto simp: insert_match_def memcmp_eq_def split: option.splits)

lemma insert_chain_returns:
  assumes "unat keysize \<le> length key'" and "unat valuesize \<le> length value'"
    and "allocs = Ok j1 # Ok j2 # Ok j3 # rest"
  shows "intact c \<Longrightarrow>
     \<exists>appended c'. insert_chain past allocs c key' keysize value' valuesize = Inr (appended, c')"
proof (induction c)
  case Null
  then show ?case
    using assms by (auto simp: new_tail_entry_returns)
next
  case Dangling
  then show ?case by simp
next
  case (Node e nx)
  obtain m where m: "insert_match past e key' keysize = Inr m"
    using insert_match_returns assms(1) by blast
  show ?case
  proof (cases m)
    case True
    with m show ?thesis by auto
  next
    case False
    from Node have "\<exists>appended c'.
        insert_chain past allocs nx key' keysize value' valuesize = Inr (appended, c')"
      by simp
    with m False show ?thesis by auto
  qed
qed

lemma insertInHashTable_returns:
  assumes "sound_table ht" and "proper_call (past, allocs, key', keysize, value', valuesize)"
  shows "\<exists>t'. insertInHashTable cs past allocs ht key' keysize value' valuesize = Inr (0, Some t') \<and>
           sound_table (Some t')"
proof -
  from assms(1) obtain t bs where t: "ht = Some t" "table t = Some bs"
    and cap: "capacity t \<noteq> 0" and len: "length bs = unat (capacity t)"
    and all: "list_all intact bs"
    by (auto simp: sound_table_def split: option.splits)
  from assms(2) obtain j1 j2 j3 rest where allocs: "allocs = Ok j1 # Ok j2 # Ok j3 # rest"
    and k: "unat keysize \<le> length key'" and vl: "unat valuesize \<le> length value'"
    by (auto split: list.splits alloc.splits)
  let ?i = "bucket_of cs (capacity t) (take (unat keysize) key')"
  have bi: "bucket_index cs (capacity t) key' keysize = Inr ?i"
    using k cap by (simp add: bucket_index_bucket_of)
  have ilen: "?i < length bs"
    using bucket_of_less [OF cap] len by simp
  then have int: "intact (bs ! ?i)"
    using all by (simp add: list_all_length)
  have "\<exists>appended c'. insert_bucket past allocs (bs ! ?i) key' keysize value' valuesize =
          Inr (appended, c')"
  proof (cases "bs ! ?i = Null")
    case True
    then show ?thesis
      using k vl by (auto simp: insert_bucket_def allocs new_head_entry_returns)
  next
    case False
    then show ?thesis
      using insert_chain_returns [OF k vl allocs int] by (simp add: insert_bucket_def)
  qed
  then obtain appended c' where
    ib: "insert_bucket past allocs (bs ! ?i) key' keysize value' valuesize = Inr (appended, c')"
    by blast
  have "intact c'"
    using insert_bucket_Inr [OF ib] int by simp
  then have "list_all intact (bs[?i := c'])"
    using all by (simp add: list_all_update)
  then show ?thesis
    using t bi ilen ib cap len by (simp add: insertInHashTable_def sound_table_def)
qed

lemma insert_all_returns:
  "sound_table ht \<Longrightarrow> list_all proper_call calls \<Longrightarrow>
     \<exists>t. insert_all cs ht calls = Inr (Some t)"
proof (induction calls arbitrary: ht)
  case Nil
  then show ?case
    by (auto simp: sound_table_def split: option.splits)
next
  case (Cons call calls)
  obtain past allocs key' keysize value' valuesize where
    call: "call = (past, allocs, key', keysize, value', valuesize)"
    by (cases call)
  from Cons.prems have p: "proper_call (past, allocs, key', keysize, value', valuesize)"
    and ps: "list_all proper_call calls"
    by (simp_all add: call)
  from insertInHashTable_returns [OF Cons.prems(1) p, of cs] obtain t' where
    1: "insertInHashTable cs past allocs ht key' keysize value' valuesize = Inr (0, Some t')"
    and 2: "sound_table (Some t')"
    by blast
  from Cons.IH [OF 2 ps] 1 show ?case
    by (simp add: call)
qed

lemma createHashTable_sound:
  assumes "createHashTable allocs sz = Some t" and "0 < sint sz"
  shows "sound_table (Some t)"
proof -
  have t: "t = \<lparr>capacity = sz, size_ht = 0, table = Some (replicate (nat (sint sz)) Null)\<rparr>"
    using assms(1) by (auto simp: createHashTable_def split: prod.splits bool.splits)
  have "nat (sint sz) = unat sz"
    using assms(2) by (simp add: sint_nonneg_unat)
  moreover have "sz \<noteq> 0"
    using assms(2) by auto
  ultimately show ?thesis
    by (simp add: t sound_table_def list_all_iff)
qed

subsection \<open>Evaluating the model on the example tables\<close>

lemma RSHash_loop_numeral [simp]:
  "RSHash_loop cs (c # key') (numeral k) a hash =
     RSHash_loop cs key' (pred_numeral k) (a * 378551) (hash * a + char_to_uint cs c)"
  "RSHash_loop cs [] (numeral k) a hash = Inl OutOfBounds"
  by (simp_all add: numeral_eq_Suc)

lemma replicate_numeral_Cons [simp]:
  "replicate (numeral k) x = x # replicate (pred_numeral k) x"
  by (simp add: numeral_eq_Suc)

lemmas model_defs =
  insertInHashTable_def removeFromHashTable_def findInHashTable_def bucket_index_def
  RSHash_def char_to_uint_def insert_bucket_def new_head_entry_def new_tail_entry_def
  insert_match_def key_match_def overwrite_def memcpy_def memcmp_eq_def

lemmas example_defs =
  zeroed_def table_empty_def entry_k_def table_k_def entry_a_def entry_b_def table_ab_def
  entry_ab_def entry_c_def table_ab_c_def table_2_def table_dangling_def
  table_a_ab_b_def entry_nokey_def table_nokey_twice_def differs_def agrees_def

text \<open>Each example table is what the code builds from a fresh table.\<close>

lemma create_table_empty: "createHashTable [zeroed, zeroed] 1 = Some table_empty"
  by (simp add: createHashTable_def example_defs)

lemma reach_table_k:
  "insertInHashTable cs past [zeroed, zeroed, zeroed] (Some table_empty) [0x6B] 1 [0x76, 0x31] 2
     = Inr (0, Some table_k)"
  by (simp add: model_defs example_defs)

lemma reach_table_ab:
  "insert_all cs (Some table_empty)
     [(past, [zeroed, zeroed, zeroed], [0x61], 1, [0x41], 1),
      (past, [zeroed, zeroed, zeroed], [0x62], 1, [0x42], 1)] = Inr (Some table_ab)"
  by (simp add: model_defs example_defs)

lemma reach_table_ab_c:
  "insert_all cs (Some table_empty)
     [(past, [zeroed, zeroed, zeroed], [0x61, 0x62], 2, [0x5A], 1),
      (past, [zeroed, zeroed, zeroed], [0x63], 1, [0x43], 1)] = Inr (Some table_ab_c)"
  by (simp add: model_defs example_defs)

lemma reach_table_2:
  "insert_all cs (createHashTable [zeroed, zeroed] 2)
     [(past, [zeroed, zeroed, zeroed], [0x6B], 1, [0x76, 0x31], 2),
      (past, [zeroed, zeroed, zeroed], [0x62], 1, [0x42], 1)] = Inr (Some table_2)"
  by (simp add: createHashTable_def model_defs example_defs)

section \<open>The claims\<close>

subsection \<open>C1: removal\<close>

text \<open>
  C1 says that after \<open>removeFromHashTable\<close> of a stored key, \<open>findInHashTable\<close> of that
  key returns absent, \<open>size\<close> has gone down by one and every other key is still found.
  The code does not do that. On the one-bucket table holding \<open>a\<close> and then \<open>b\<close>, with
  \<open>size = 2\<close>: removing \<open>b\<close> frees its node while the \<open>next\<close> field of the node of \<open>a\<close>
  still points to it (line 233 assigns to the local \<open>prev_entry\<close>, not to
  \<open>prev_entry->next\<close>), so the chain ends in a dangling pointer and the next lookup of
  \<open>b\<close> reads freed memory; and \<open>size\<close> is still 2. Removing the head \<open>a\<close> relinks the
  bucket correctly, and \<open>size\<close> is still 2 as well.
\<close>

theorem remove_relink_defect:
  "removeFromHashTable cs (Some table_ab) [0x62] 1 = Inr (Some table_dangling) \<and>
   size_ht table_dangling = 2 \<and>
   findInHashTable cs (Some table_dangling) [0x62] 1 = Inl UseAfterFree \<and>
   removeFromHashTable cs (Some table_ab) [0x61] 1 =
     Inr (Some \<lparr>capacity = 1, size_ht = 2, table = Some [Node entry_b Null]\<rparr>)"
  by (simp add: model_defs example_defs)

subsection \<open>C2: overwriting\<close>

text \<open>
  C2 says that inserting a stored key with a new value replaces the stored value by the
  new value's bytes and length and leaves \<open>size\<close> unchanged. The code never copies the
  new bytes on this path. The specification's own example, \<open>k\<close> with value \<open>v1\<close> and then
  \<open>k\<close> with value \<open>value2\<close>: the buffer grows to 6 bytes and \<open>value_size\<close> becomes 6, but
  the content is \<open>v1\<close> followed by four bytes of uninitialised memory. With a new value
  of the same length, \<open>v2\<close>, the call returns 0 and the table is exactly what it was, so
  a lookup still yields \<open>v1\<close>.
\<close>

theorem overwrite_keeps_old_bytes:
  "insertInHashTable cs past [Ok junk] (Some table_k) [0x6B] 1 [0x76, 0x61, 0x6C, 0x75, 0x65, 0x32] 6 =
     Inr (0, Some \<lparr>capacity = 1, size_ht = 1,
        table = Some [Node \<lparr>key = Some [0x6B], key_size = 1,
          v = \<lparr>value = Some ([0x76, 0x31] @ map junk [2..<6]), value_size = 6\<rparr>\<rparr> Null]\<rparr>) \<and>
   insertInHashTable cs past allocs (Some table_k) [0x6B] 1 [0x76, 0x32] 2 = Inr (0, Some table_k) \<and>
   findInHashTable cs (Some table_k) [0x6B] 1 =
     Inr (Some \<lparr>value = Some [0x76, 0x31], value_size = 2\<rparr>)"
proof -
  have "[Suc (Suc 0)..<6] = [2..<6]"
    by (simp add: numeral_2_eq_2)
  then show ?thesis
    by (simp add: model_defs example_defs del: upt_rec_numeral)
qed

subsection \<open>C3: round trip\<close>

text \<open>
  C3 says that after any sequence of insertions, a lookup of an inserted key returns the
  value last inserted for it. The code does not do that, in two ways. Inserting \<open>k\<close> with
  value \<open>A\<close> and then \<open>k\<close> with value \<open>B\<close> into a fresh one-bucket table leaves \<open>A\<close>
  stored (the defect of C2). And inserting \<open>ab\<close> and then \<open>a\<close>: line 175 compares the
  first \<open>keysize\<close> bytes only, without the test \<open>entry->key_size == keysize\<close> that lines
  224 and 258 make, so the call takes \<open>a\<close> for the stored \<open>ab\<close>, stores nothing, and
  a lookup of \<open>a\<close> returns absent.
\<close>

theorem round_trip_fails_on_reinsert:
  "(case insert_all cs (createHashTable [zeroed, zeroed] 1)
           [(past, [zeroed, zeroed, zeroed], [0x6B], 1, [0x41], 1),
            (past, [zeroed], [0x6B], 1, [0x42], 1)] of
      Inl f \<Rightarrow> Inl f
    | Inr ht \<Rightarrow> findInHashTable cs ht [0x6B] 1) =
   Inr (Some \<lparr>value = Some [0x41], value_size = 1\<rparr>) \<and>
   (case insert_all cs (createHashTable [zeroed, zeroed] 1)
           [(past, [zeroed, zeroed, zeroed], [0x61, 0x62], 2, [0x5A], 1),
            (past, [zeroed, zeroed, zeroed], [0x61], 1, [0x41], 1)] of
      Inl f \<Rightarrow> Inl f
    | Inr ht \<Rightarrow> findInHashTable cs ht [0x61] 1) = Inr None"
  by (simp add: createHashTable_def model_defs example_defs)

subsection \<open>C9: allocation failure during insertion\<close>

text \<open>
  C9 says that an allocation failure during \<open>insertInHashTable\<close> is reported to the
  caller as a failure and leaves the chains unchanged. The code reports none. When the
  \<open>realloc\<close> of line 179 fails (the key \<open>k\<close> is stored with a 2-byte value and is
  inserted with a 6-byte value) the table is unchanged but the call returns 0, the
  success result. When a \<open>malloc\<close> fails, its result is used unchecked: the node pointer
  is dereferenced at line 159 or 196, and a null key or value buffer is passed to
  \<open>memcpy\<close>; the node is linked into the bucket (line 158) or the chain (line 194) before
  its buffers are allocated.
\<close>

theorem insert_allocation_failure:
  "insertInHashTable cs past [Fail] (Some table_k) [0x6B] 1 [0x76, 0x61, 0x6C, 0x75, 0x65, 0x32] 6 =
     Inr (0, Some table_k) \<and>
   insertInHashTable cs past [Fail] (Some table_empty) [0x6B] 1 [0x76, 0x31] 2 = Inl NullDereference \<and>
   insertInHashTable cs past [zeroed, Fail, zeroed] (Some table_empty) [0x6B] 1 [0x76, 0x31] 2 =
     Inl NullDereference \<and>
   insertInHashTable cs past [zeroed, zeroed, Fail] (Some table_k) [0x6C] 1 [0x76, 0x31] 2 =
     Inl NullDereference"
  by (simp add: model_defs example_defs)

subsection \<open>C4: size bookkeeping\<close>

text \<open>
  C4 as amended. A call of \<open>insertInHashTable\<close> that returns 0 increments \<open>size\<close> by one
  (modulo \<open>2 ^ 32\<close>) exactly when no entry of the key's chain compares equal to the key
  under the test of line 175, that is when the call adds an entry; when some entry does,
  the call is an overwrite, it returns at line 186 before the increment of line 207, and
  \<open>size\<close> is unchanged. No call of \<open>removeFromHashTable\<close> changes \<open>size\<close>.
\<close>

theorem size_bookkeeping:
  "(insertInHashTable cs past allocs (Some t) key' keysize value' valuesize = Inr (0, ht1) \<longrightarrow>
      (\<exists>bs t'. table t = Some bs \<and> ht1 = Some t' \<and>
         size_ht t' =
           (if list_ex (\<lambda>e. insert_match past e key' keysize = Inr True)
                 (entries (bs ! bucket_of cs (capacity t) (take (unat keysize) key')))
            then size_ht t else size_ht t + 1))) \<and>
   (removeFromHashTable cs (Some t) key' keysize = Inr ht2 \<longrightarrow>
      (\<exists>t'. ht2 = Some t' \<and> size_ht t' = size_ht t))"
  using insert_size [of cs past allocs t key' keysize value' valuesize ht1]
    remove_size [of cs t key' keysize ht2]
  by blast

text \<open>
  The amended C4 at work: the first insertion of \<open>k\<close> takes \<open>size\<close> from 0 to 1, and
  removing \<open>k\<close> again leaves \<open>size\<close> at 1 although the table is then empty.
\<close>

theorem size_bookkeeping_witness:
  "insertInHashTable True differs [zeroed, zeroed, zeroed] (Some table_empty) [0x6B] 1 [0x76, 0x31] 2 =
     Inr (0, Some table_k) \<and>
   size_ht table_k = size_ht table_empty + 1 \<and>
   removeFromHashTable True (Some table_k) [0x6B] 1 =
     Inr (Some \<lparr>capacity = 1, size_ht = 1, table = Some [Null]\<rparr>) \<and>
   size_ht \<lparr>capacity = 1, size_ht = 1, table = Some [Null]\<rparr> = size_ht table_k"
proof -
  have i: "insertInHashTable True differs [zeroed, zeroed, zeroed] (Some table_empty) [0x6B] 1
             [0x76, 0x31] 2 = Inr (0, Some table_k)"
    by (rule reach_table_k)
  have r: "removeFromHashTable True (Some table_k) [0x6B] 1 =
     Inr (Some \<lparr>capacity = 1, size_ht = 1, table = Some [Null]\<rparr>)"
    by (simp add: model_defs example_defs)
  have "size_ht table_k = size_ht table_empty + 1"
    using size_bookkeeping [THEN conjunct1, THEN mp, OF i]
    by (simp add: table_empty_def bucket_of_def)
  moreover have "size_ht \<lparr>capacity = 1, size_ht = 1, table = Some [Null]\<rparr> = size_ht table_k"
    using size_bookkeeping [THEN conjunct2, THEN mp, OF r]
    by simp
  ultimately show ?thesis
    using i r by simp
qed

text \<open>
  C4 as stated fails: it says that a call that overwrites a stored key increments
  \<open>size\<close> too. Inserting the stored key \<open>k\<close> again returns 0 and leaves the table, and
  so its \<open>size\<close> of 1, as it was.
\<close>

theorem overwrite_size_counterexample:
  "insertInHashTable True differs [] (Some table_k) [0x6B] 1 [0x42] 1 = Inr (0, Some table_k) \<and>
   size_ht table_k = 1 \<and> size_ht table_k \<noteq> size_ht table_k + 1"
  by (simp add: model_defs example_defs)

subsection \<open>C5: the hash and the bucket index\<close>

text \<open>
  C5 as amended. For a key buffer that holds \<open>keysize\<close> bytes, \<open>RSHash\<close> returns the
  result of the recurrence \<open>hash := hash * a + x\<close>, \<open>a := a * 378551\<close>, from
  \<open>a = 63689\<close> and \<open>hash = 0\<close>, in arithmetic modulo \<open>2 ^ 32\<close>, where \<open>x\<close> is the byte as
  a plain \<open>char\<close> converted to \<open>unsigned int\<close>: the byte itself where \<open>char\<close> is unsigned,
  and where \<open>char\<close> is signed the byte itself below 128 and the byte minus 256 from 128
  on. So the hash is that of the unsigned bytes whenever \<open>char\<close> is unsigned or every
  byte is below 128. On a table with a nonzero capacity, \<open>findInHashTable\<close>,
  \<open>removeFromHashTable\<close> and \<open>insertInHashTable\<close> work on the bucket whose index is this
  hash modulo the capacity, and on no other.
\<close>

theorem RSHash_bucket_index:
  assumes "unat keysize \<le> length key'" and "table t = Some bs" and "capacity t \<noteq> 0"
    and "i = bucket_of cs (capacity t) (take (unat keysize) key')" and "i < length bs"
  shows "RSHash cs key' (ucast keysize) = Inr (hash_spec cs (take (unat keysize) key')) \<and>
    (\<not> cs \<or> list_all (\<lambda>c. c < 128) (take (unat keysize) key') \<longrightarrow>
       hash_spec cs (take (unat keysize) key') = hash_spec False (take (unat keysize) key')) \<and>
    findInHashTable cs (Some t) key' keysize = find_chain (bs ! i) key' keysize \<and>
    removeFromHashTable cs (Some t) key' keysize =
      (case remove_chain (bs ! i) True key' keysize of
         Inl f \<Rightarrow> Inl f
       | Inr c \<Rightarrow> Inr (Some (t\<lparr>table := Some (bs[i := c])\<rparr>))) \<and>
    insertInHashTable cs past allocs (Some t) key' keysize value' valuesize =
      (case insert_bucket past allocs (bs ! i) key' keysize value' valuesize of
         Inl f \<Rightarrow> Inl f
       | Inr (appended, c) \<Rightarrow>
           Inr (0, Some (t\<lparr>table := Some (bs[i := c]),
                           size_ht := (if appended then size_ht t + 1 else size_ht t)\<rparr>)))"
proof -
  have bi: "bucket_index cs (capacity t) key' keysize = Inr i"
    using assms by (simp add: bucket_index_bucket_of)
  have 1: "RSHash cs key' (ucast keysize) = Inr (hash_spec cs (take (unat keysize) key'))"
    using assms(1) by (rule RSHash_hash_spec)
  have 2: "\<not> cs \<or> list_all (\<lambda>c. c < 128) (take (unat keysize) key') \<longrightarrow>
       hash_spec cs (take (unat keysize) key') = hash_spec False (take (unat keysize) key')"
    using hash_spec_ascii by blast
  have 3: "findInHashTable cs (Some t) key' keysize = find_chain (bs ! i) key' keysize"
    using assms(2,5) by (simp add: findInHashTable_def bi)
  have 4: "removeFromHashTable cs (Some t) key' keysize =
      (case remove_chain (bs ! i) True key' keysize of
         Inl f \<Rightarrow> Inl f
       | Inr c \<Rightarrow> Inr (Some (t\<lparr>table := Some (bs[i := c])\<rparr>)))"
    using assms(2,5) by (simp add: removeFromHashTable_def bi)
  have 5: "insertInHashTable cs past allocs (Some t) key' keysize value' valuesize =
      (case insert_bucket past allocs (bs ! i) key' keysize value' valuesize of
         Inl f \<Rightarrow> Inl f
       | Inr (appended, c) \<Rightarrow>
           Inr (0, Some (t\<lparr>table := Some (bs[i := c]),
                           size_ht := (if appended then size_ht t + 1 else size_ht t)\<rparr>)))"
    using assms(2,5) by (simp add: insertInHashTable_def bi)
  show ?thesis
    using 1 2 3 4 5 by blast
qed

text \<open>
  The amended C5 where plain \<open>char\<close> is signed, on the three-byte key \<open>0xC3 0xA9 0x6B\<close>
  (the UTF-8 bytes of an accented letter, then \<open>k\<close>). The multiplier starts at 63689 and
  becomes \<open>63689 * 378551 mod 2 ^ 32 = 2634698159\<close> and then 3202212377; the first two
  bytes count as \<open>0xC3 - 256\<close> and \<open>0xA9 - 256\<close>; the hash is 441344113, where the
  all-unsigned recurrence gives 2705625201. On the two-bucket table holding \<open>b\<close> and
  \<open>k\<close> the key's bucket is \<open>441344113 mod 2 = 1\<close>, and its lookup is the search of the
  chain of bucket 1. On the ASCII key \<open>ab\<close> the hash is 2162651057 with signed and with
  unsigned \<open>char\<close>.
\<close>

theorem RSHash_bucket_index_witness:
  "RSHash True [0xC3, 0xA9, 0x6B] (ucast (3 :: ushort)) = Inr 441344113 \<and>
   hash_spec True [0xC3, 0xA9, 0x6B] = 441344113 \<and>
   hash_spec False [0xC3, 0xA9, 0x6B] = 2705625201 \<and>
   bucket_of True 2 [0xC3, 0xA9, 0x6B] = 1 \<and>
   findInHashTable True (Some table_2) [0xC3, 0xA9, 0x6B] 3 =
     find_chain (Node entry_k Null) [0xC3, 0xA9, 0x6B] 3 \<and>
   RSHash True [0x61, 0x62] (ucast (2 :: ushort)) = Inr 2162651057 \<and>
   hash_spec True [0x61, 0x62] = hash_spec False [0x61, 0x62]"
proof -
  have v1: "hash_spec True [0xC3, 0xA9, 0x6B] = 441344113"
    by (simp add: hash_spec_def plain_char_value_def)
  have v2: "hash_spec False [0xC3, 0xA9, 0x6B] = 2705625201"
    by (simp add: hash_spec_def plain_char_value_def)
  have v3: "hash_spec True [0x61, 0x62] = 2162651057"
    by (simp add: hash_spec_def plain_char_value_def)
  have h1: "unat (3 :: ushort) \<le> length [0xC3, 0xA9, 0x6B :: byte]"
    by simp
  have h2: "table table_2 = Some [Node entry_b Null, Node entry_k Null]"
    by (simp add: table_2_def)
  have h3: "capacity table_2 \<noteq> 0"
    by (simp add: table_2_def)
  have h4: "1 = bucket_of True (capacity table_2) (take (unat (3 :: ushort)) [0xC3, 0xA9, 0x6B])"
    by (simp add: table_2_def bucket_of_def v1)
  have h5: "1 < length [Node entry_b Null, Node entry_k Null]"
    by simp
  have g1: "unat (2 :: ushort) \<le> length [0x61, 0x62 :: byte]"
    by simp
  have g4: "0 = bucket_of True (capacity table_k) (take (unat (2 :: ushort)) [0x61, 0x62])"
    by (simp add: table_k_def bucket_of_def)
  have g2: "table table_k = Some [Node entry_k Null]" and g3: "capacity table_k \<noteq> 0"
    and g5: "0 < length [Node entry_k Null]"
    by (simp_all add: table_k_def)
  have a: "\<not> True \<or> list_all (\<lambda>c. c < 128) (take (unat (2 :: ushort)) [0x61, 0x62 :: byte])"
    by simp
  note t1 = RSHash_bucket_index [OF h1 h2 h3 h4 h5]
  note t2 = RSHash_bucket_index [OF g1 g2 g3 g4 g5]
  have c1: "RSHash True [0xC3, 0xA9, 0x6B] (ucast (3 :: ushort)) = Inr 441344113"
    using t1 [THEN conjunct1] by (simp add: v1)
  have c2: "bucket_of True 2 [0xC3, 0xA9, 0x6B] = 1"
    using h4 [symmetric] by (simp add: table_2_def)
  have c3: "findInHashTable True (Some table_2) [0xC3, 0xA9, 0x6B] 3 =
     find_chain (Node entry_k Null) [0xC3, 0xA9, 0x6B] 3"
    using t1 [THEN conjunct2, THEN conjunct2, THEN conjunct1] by simp
  have c4: "RSHash True [0x61, 0x62] (ucast (2 :: ushort)) = Inr 2162651057"
    using t2 [THEN conjunct1] by (simp add: v3)
  have c5: "hash_spec True [0x61, 0x62] = hash_spec False [0x61, 0x62]"
    using t2 [THEN conjunct2, THEN conjunct1, THEN mp, OF a] by simp
  from c1 v1 v2 c2 c3 c4 c5 show ?thesis
    by (intro conjI)
qed

text \<open>
  C5 as stated fails where plain \<open>char\<close> is signed: it says that every byte counts as
  unsigned. The two-byte key \<open>0x61 0x80\<close> hashes to 2162650831 there; with both bytes
  unsigned the recurrence gives 2162651087.
\<close>

theorem RSHash_signed_char_counterexample:
  "RSHash True [0x61, 0x80] 2 = Inr 2162650831 \<and> hash_spec False [0x61, 0x80] = 2162651087 \<and>
   RSHash True [0x61, 0x80] 2 \<noteq> Inr (hash_spec False [0x61, 0x80])"
  by (simp add: RSHash_def hash_spec_def plain_char_value_def char_to_uint_def)

subsection \<open>C6: creation\<close>

text \<open>
  C6 as amended. \<open>createHashTable\<close> returns null exactly when one of its two allocations
  fails; it makes no test of its argument. When both allocations succeed and the argument
  is not negative (zero included), the result is a table of that capacity whose buckets
  are all empty and whose \<open>size\<close> is 0.
\<close>

theorem createHashTable_result:
  "(createHashTable allocs sz = None \<longleftrightarrow> (\<nexists>j1 j2 rest. allocs = Ok j1 # Ok j2 # rest)) \<and>
   (0 \<le> sint sz \<longrightarrow>
      createHashTable (Ok j1 # Ok j2 # rest) sz =
        Some \<lparr>capacity = sz, size_ht = 0, table = Some (replicate (unat sz) Null)\<rparr>)"
proof -
  have "createHashTable allocs sz = None \<longleftrightarrow> (\<nexists>j1 j2 rest. allocs = Ok j1 # Ok j2 # rest)"
  proof (cases allocs)
    case Nil
    then show ?thesis by (simp add: createHashTable_def)
  next
    case (Cons x xs)
    show ?thesis
    proof (cases x)
      case Fail
      with Cons show ?thesis by (simp add: createHashTable_def)
    next
      case (Ok j)
      show ?thesis
      proof (cases xs)
        case Nil
        with Cons Ok show ?thesis by (simp add: createHashTable_def)
      next
        case c2: (Cons y ys)
        with Cons Ok show ?thesis by (cases y) (simp_all add: createHashTable_def)
      qed
    qed
  qed
  then show ?thesis
    by (simp add: createHashTable_def sint_nonneg_unat)
qed

text \<open>
  The amended C6 on a request for three buckets: a table of three empty buckets when
  both allocations succeed, null when the second one fails.
\<close>

theorem createHashTable_result_witness:
  "(0 :: int) \<le> sint (3 :: uint) \<and>
   createHashTable [zeroed, zeroed] 3 =
     Some \<lparr>capacity = 3, size_ht = 0, table = Some [Null, Null, Null]\<rparr> \<and>
   createHashTable [zeroed, Fail] 3 = None"
proof -
  have h: "(0 :: int) \<le> sint (3 :: uint)"
    by simp
  have "createHashTable [zeroed, zeroed] 3 =
     Some \<lparr>capacity = 3, size_ht = 0, table = Some (replicate (unat (3 :: uint)) Null)\<rparr>"
    using createHashTable_result [where sz = 3 and ?j1.0 = "\<lambda>i. 0" and ?j2.0 = "\<lambda>i. 0"
        and rest = "[]", THEN conjunct2, THEN mp, OF h]
    by (simp add: zeroed_def)
  moreover have "createHashTable [zeroed, Fail] 3 = None"
    using createHashTable_result [of "[zeroed, Fail]" 3, THEN conjunct1]
    by (simp add: zeroed_def)
  ultimately show ?thesis
    using h by simp
qed

text \<open>
  C6 as stated fails: it says that a capacity of 0 yields null. When \<open>malloc(0)\<close> returns
  a block, as it may, the result is a table with no bucket.
\<close>

theorem createHashTable_zero_counterexample:
  "createHashTable [zeroed, zeroed] 0 = Some \<lparr>capacity = 0, size_ht = 0, table = Some []\<rparr> \<and>
   createHashTable [zeroed, zeroed] 0 \<noteq> None"
  by (simp add: createHashTable_def example_defs)

subsection \<open>C7: lookup\<close>



subsection \<open>C8: uniqueness of keys\<close>

text \<open>
  C8 as amended. Take a table returned by \<open>createHashTable\<close> and any sequence of calls
  of \<open>insertInHashTable\<close> on it, whatever their allocations do and whatever the
  comparisons of line 175 find behind a shorter stored key. After the sequence, no
  bucket chain holds two entries that have a key buffer, equal \<open>key_size\<close> and equal key
  bytes; and when every call has a \<open>keysize\<close> of at least 1, every entry has a key
  buffer, so no chain holds two entries of equal \<open>key_size\<close> and equal key bytes at all.
  (An entry without key buffer is what a call with \<open>keysize = 0\<close> stores when
  \<open>malloc(0)\<close> returns null; the test \<open>entry->key != NULL\<close> of line 175 never matches
  it, so it can repeat.) The sequence does run to its end, on a table created with a
  positive capacity, when every call keeps to the interface and meets no allocation
  failure; the calls that do not end a run are those on which the program itself
  stops: a null pointer from a failed allocation that is written through, a division by
  a capacity of 0, a key or value buffer shorter than the call says.
\<close>

theorem insert_all_unique_stored_keys:
  assumes "createHashTable allocs sz = Some t0"
  shows "(insert_all cs (Some t0) calls = Inr ht \<longrightarrow>
            (\<exists>t bs. ht = Some t \<and> table t = Some bs \<and> list_all unique_stored_keys bs \<and>
               (list_all (\<lambda>call. call_keysize call \<noteq> 0) calls \<longrightarrow> list_all unique_keys bs))) \<and>
         (0 < sint sz \<and> list_all proper_call calls \<longrightarrow>
            (\<exists>t. insert_all cs (Some t0) calls = Inr (Some t)))"
proof (intro conjI impI)
  assume run: "insert_all cs (Some t0) calls = Inr ht"
  have u0: "table_all unique_stored_keys (Some t0)"
    using assms by (rule createHashTable_table_all) (simp add: unique_stored_keys_def)
  have k0: "table_all keyed (Some t0)"
    using assms by (rule createHashTable_table_all) (simp add: keyed_def)
  from insert_all_unique [OF run u0] obtain t bs where
    t: "ht = Some t" "table t = Some bs" and u: "list_all unique_stored_keys bs"
    by (auto simp: table_all_def split: option.splits)
  have "list_all unique_keys bs" if "list_all (\<lambda>call. call_keysize call \<noteq> 0) calls"
  proof -
    from insert_all_keyed [OF run k0 that] t have "list_all keyed bs"
      by (simp add: table_all_def)
    with u show ?thesis
      by (auto simp: list_all_iff intro: keyed_unique)
  qed
  with t u show "\<exists>t bs. ht = Some t \<and> table t = Some bs \<and> list_all unique_stored_keys bs \<and>
      (list_all (\<lambda>call. call_keysize call \<noteq> 0) calls \<longrightarrow> list_all unique_keys bs)"
    by blast
next
  assume "0 < sint sz \<and> list_all proper_call calls"
  then show "\<exists>t. insert_all cs (Some t0) calls = Inr (Some t)"
    using insert_all_returns [OF createHashTable_sound [OF assms]] by blast
qed

text \<open>
  The amended C8 on a fresh one-bucket table and the calls that insert \<open>a\<close>, then \<open>ab\<close>,
  then \<open>a\<close> again, then \<open>b\<close>. The comparison of \<open>ab\<close> with the shorter stored \<open>a\<close> runs
  past the stored key. When the memory behind it differs from \<open>b\<close>, the chain ends up
  holding \<open>a\<close>, \<open>ab\<close> and \<open>b\<close> once each: the second call of \<open>a\<close> adds nothing. When that
  memory happens to equal \<open>b\<close>, the run ends as well, and its chains are unique too.
\<close>

theorem insert_all_unique_stored_keys_witness:
  "createHashTable [zeroed, zeroed] 1 = Some table_empty \<and>
   insert_all True (Some table_empty) (four_calls differs) = Inr (Some table_a_ab_b) \<and>
   list_all unique_keys [Node entry_a (Node entry_ab (Node entry_b Null))] \<and>
   (\<exists>t bs. insert_all True (Some table_empty) (four_calls agrees) = Inr (Some t) \<and>
      table t = Some bs \<and> list_all unique_keys bs)"
proof -
  note h1 = create_table_empty
  have h2: "insert_all True (Some table_empty) (four_calls differs) = Inr (Some table_a_ab_b)"
    by (simp add: four_calls_def model_defs example_defs)
  have nz: "list_all (\<lambda>call. call_keysize call \<noteq> 0) (four_calls past)" for past
    by (simp add: four_calls_def)
  have pr: "(0 :: int) < sint (1 :: uint) \<and> list_all proper_call (four_calls agrees)"
    by (simp add: four_calls_def zeroed_def)
  have "list_all unique_keys [Node entry_a (Node entry_ab (Node entry_b Null))]"
    using insert_all_unique_stored_keys [OF h1, THEN conjunct1, THEN mp, OF h2] nz
    by (simp add: table_a_ab_b_def)
  moreover have "\<exists>t bs. insert_all True (Some table_empty) (four_calls agrees) = Inr (Some t) \<and>
      table t = Some bs \<and> list_all unique_keys bs"
  proof -
    from insert_all_unique_stored_keys [OF h1, THEN conjunct2, THEN mp, OF pr] obtain t where
      r: "insert_all True (Some table_empty) (four_calls agrees) = Inr (Some t)"
      by blast
    from insert_all_unique_stored_keys [OF h1, THEN conjunct1, THEN mp, OF r] nz r
    show ?thesis
      by auto
  qed
  ultimately show ?thesis
    using h1 h2 by simp
qed

text \<open>
  C8 as stated fails: it speaks of any sequence of calls. Two calls with \<open>keysize = 0\<close>
  on a fresh one-bucket table, with \<open>malloc(0)\<close> returning null for the key buffer:
  \<open>memcpy\<close> copies nothing, each call links an entry with \<open>key == NULL\<close> and
  \<open>key_size = 0\<close>, and the chain holds two entries of equal \<open>key_size\<close> and equal (no)
  key bytes.
\<close>

theorem empty_key_twice_counterexample:
  "insert_all True (createHashTable [zeroed, zeroed] 1)
     [(differs, [zeroed, Fail, zeroed], [], 0, [0x41], 1),
      (differs, [zeroed, Fail, zeroed], [], 0, [0x41], 1)] = Inr (Some table_nokey_twice) \<and>
   \<not> list_all unique_keys [Node entry_nokey (Node entry_nokey Null)]"
  by (simp add: createHashTable_def model_defs example_defs unique_keys_def)

subsection \<open>C10: inserting a stored key with a value that is not longer\<close>

text \<open>
  C10. Let the scan of lines 173--190 reach an entry of the key's chain that the test of
  line 175 accepts (every entry before it is compared and rejected; \<open>past\<close> gives the
  outcome where a comparison runs past a shorter stored key), and let \<open>valuesize\<close>
  be at most that entry's \<open>value_size\<close>. Then \<open>insertInHashTable\<close> returns 0 and the
  table after the call is the table before it: the entry's value bytes, its
  \<open>value_size\<close> and the table's \<open>size\<close> are unchanged, whatever the new value and
  whatever the allocator would do.
\<close>

theorem insert_existing_no_larger:
  assumes "table t = Some bs"
    and "bucket_index cs (capacity t) key' keysize = Inr i" and "i < length bs"
    and "entries (bs ! i) = es1 @ e # es2"
    and "list_all (\<lambda>x. insert_match past x key' keysize = Inr False) es1"
    and "insert_match past e key' keysize = Inr True"
    and "valuesize \<le> value_size (v e)"
  shows "insertInHashTable cs past allocs (Some t) key' keysize value' valuesize = Inr (0, Some t)"
proof -
  have "bs ! i \<noteq> Null"
    using assms(4) by auto
  then have "insert_bucket past allocs (bs ! i) key' keysize value' valuesize = Inr (False, bs ! i)"
    using insert_chain_no_larger [OF assms(4-7)] by (simp add: insert_bucket_def)
  moreover have "t\<lparr>table := Some bs\<rparr> = t"
    using assms(1) by (cases t) simp
  ultimately show ?thesis
    using assms(1-3) by (simp add: insertInHashTable_def)
qed

text \<open>
  C10 on the chain holding \<open>a\<close> and then \<open>b\<close>: inserting \<open>b\<close> with the one-byte value
  \<open>Z\<close> passes \<open>a\<close>, finds \<open>b\<close>, and leaves the table as it was, \<open>B\<close> still stored.
\<close>

theorem insert_existing_no_larger_witness:
  "insertInHashTable True differs [] (Some table_ab) [0x62] 1 [0x5A] 1 = Inr (0, Some table_ab) \<and>
   value (v entry_b) = Some [0x42]"
proof -
  have h1: "table table_ab = Some [Node entry_a (Node entry_b Null)]"
    by (simp add: table_ab_def)
  have h2: "bucket_index True (capacity table_ab) [0x62] 1 = Inr 0"
    by (simp add: bucket_index_def RSHash_def table_ab_def)
  have h3: "0 < length [Node entry_a (Node entry_b Null)]"
    by simp
  have h4: "entries ([Node entry_a (Node entry_b Null)] ! 0) = [entry_a] @ entry_b # []"
    by simp
  have h5: "list_all (\<lambda>x. insert_match differs x [0x62] 1 = Inr False) [entry_a]"
    by (simp add: insert_match_def memcmp_eq_def entry_a_def)
  have h6: "insert_match differs entry_b [0x62] 1 = Inr True"
    by (simp add: insert_match_def memcmp_eq_def entry_b_def)
  have h7: "(1 :: ushort) \<le> value_size (v entry_b)"
    by (simp add: entry_b_def)
  show ?thesis
    using insert_existing_no_larger [OF h1 h2 h3 h4 h5 h6 h7] by (simp add: entry_b_def)
qed

end
